theory Spec2Isabelle
  imports Complex_Main "HOL-Library.Multiset" "HOL-Library.Sublist"
begin

section \<open>Group sizes and insertion order\<close>

text \<open>
  The generator \<open>_groupSizes\<close> keeps two variables, the counter \<open>i\<close> (starting at 1) and the
  previously yielded value \<open>prev\<close> (starting at 0); each step yields \<open>2**i - prev\<close>.
\<close>

type_synonym gen_state = "nat \<times> int"

definition groupSizes :: gen_state where
  "groupSizes = (1, 0)"

definition gen_next :: "gen_state \<Rightarrow> int \<times> gen_state" where
  "gen_next g = (let cur = 2 ^ fst g - snd g in (cur, (fst g + 1, cur)))"

fun gen_run :: "nat \<Rightarrow> gen_state \<Rightarrow> gen_state" where
  "gen_run 0 g = g"
| "gen_run (Suc n) g = gen_run n (snd (gen_next g))"

text \<open>The value the generator yields at its \<open>k\<close>-th call, as a recurrence on \<open>k\<close>
  (\<open>groupSize 0\<close> is the initial \<open>prev\<close>).\<close>

fun groupSize :: "nat \<Rightarrow> int" where
  "groupSize 0 = 0"
| "groupSize (Suc i) = 2 ^ Suc i - groupSize i"

text \<open>JavaScript's \<open>Array.prototype.slice(start, end)\<close>, negative indices counting from the end.\<close>

definition slice :: "'a list \<Rightarrow> int \<Rightarrow> int \<Rightarrow> 'a list" where
  "slice xs start end =
     (let len = int (length xs);
          k = (if start < 0 then max (len + start) 0 else min start len);
          f = (if end < 0 then max (len + end) 0 else min end len)
      in take (nat (f - k)) (drop (nat k) xs))"

lemma groupSize_closed: "3 * groupSize n = 2 ^ Suc n - 2 * (- 1) ^ n"
  by (induction n) (simp_all add: algebra_simps)

lemma groupSize_pos: "0 < groupSize (Suc n)"
proof -
  have "3 * groupSize (Suc n) = 2 ^ Suc (Suc n) - 2 * (- 1) ^ Suc n"
    by (rule groupSize_closed)
  moreover have "(2::int) * (- 1) ^ Suc n \<le> 2"
    by (cases "even n") simp_all
  moreover have "(4::int) \<le> 2 ^ Suc (Suc n)"
    by simp
  ultimately show ?thesis by linarith
qed

function makeGroups_loop ::
  "(nat \<times> 'a) list \<Rightarrow> nat \<Rightarrow> int \<Rightarrow> (nat \<times> 'a) list \<Rightarrow> (nat \<times> 'a) list" where
  "makeGroups_loop items k i rv =
     (let size = groupSize (Suc k);
          group = slice items i (i + size);
          rv' = rv @ rev group
      in if int (length group) < size then rv'
         else makeGroups_loop items (Suc k) (i + size) rv')"
  by pat_completeness auto
termination
proof (relation "measure (\<lambda>(items, k, i, rv). nat (int (length items) + 1 - i))", goal_cases)
  case 1
  show ?case by simp
next
  case (2 items k i rv size group rv')
  have pos: "0 < size"
    unfolding 2(1) by (rule groupSize_pos)
  have "i < int (length items)"
  proof (rule ccontr)
    assume "\<not> i < int (length items)"
    then have "slice items i (i + size) = []"
      using pos by (simp add: slice_def)
    with 2(2,4) pos show False by simp
  qed
  with pos show ?case by simp
qed

declare makeGroups_loop.simps [simp del]

definition makeGroups :: "'a list \<Rightarrow> (nat \<times> 'a) list" where
  "makeGroups array = makeGroups_loop (zip [0..<length array] array) 0 0 []"

section \<open>Comparators and errors\<close>

text \<open>
  A \<open>Comparator\<close> is a caller-supplied asynchronous function returning \<open>0\<close> or \<open>1\<close>.
  It may have effects of its own and may reject; the model passes the comparator's own
  state \<open>'s\<close> through every call, \<open>Some True\<close> is the answer \<open>1\<close> (the second item is ranked
  higher), \<open>Some False\<close> the answer \<open>0\<close>, and \<open>None\<close> a rejected promise.
\<close>

type_synonym ('a, 's) Comparator = "'a \<times> 'a \<Rightarrow> 's \<Rightarrow> bool option \<times> 's"

datatype error =
    DuplicateItems        \<comment> \<open>\<open>'array may not contain duplicate items'\<close>\<close>
  | ItemAlreadyInArray    \<comment> \<open>\<open>'item is already in target array'\<close>\<close>
  | ComparatorFailure     \<comment> \<open>the awaited comparator promise was rejected\<close>
  | UndefinedValue        \<comment> \<open>an \<open>undefined\<close> would be read where an item or object is expected\<close>
  | InvalidArgument       \<comment> \<open>\<open>'must specify zero or more items'\<close>\<close>
  | NegativeIndex         \<comment> \<open>\<open>'right index may not be negative'\<close>\<close>

text \<open>The comparator that logs its calls, as the test helper \<open>testComp\<close> does with its \<open>log\<close>
  parameter: the pair is recorded before the wrapped comparator is awaited.\<close>

definition traced :: "('a, 's) Comparator \<Rightarrow> ('a, 's \<times> ('a \<times> 'a) list) Comparator" where
  "traced cmp ab st = (case cmp ab (fst st) of (c, s') \<Rightarrow> (c, (s', snd st @ [ab])))"

text \<open>The comparator of the tests, \<open>([a,b]) => Promise.resolve(a > b ? 0 : 1)\<close>, for an
  arbitrary relation \<open>lt\<close> in place of \<open><\<close>.\<close>

definition orderComparator :: "('a \<Rightarrow> 'a \<Rightarrow> bool) \<Rightarrow> ('a, 's) Comparator" where
  "orderComparator lt ab s = (Some (lt (fst ab) (snd ab)), s)"

section \<open>Binary search for the insertion index\<close>

function binSearch ::
  "('a, 's) Comparator \<Rightarrow> 'a list \<Rightarrow> 'a \<Rightarrow> int \<Rightarrow> int \<Rightarrow> 's \<Rightarrow> (error + nat) \<times> 's" where
  "binSearch cmp array x l r s =
     (if l \<le> r then
        (let m = l + (r - l) div 2 in
         case cmp (x, array ! nat m) s of
           (None, s') \<Rightarrow> (Inl ComparatorFailure, s')
         | (Some c, s') \<Rightarrow>
             if c then binSearch cmp array x l (m - 1) s'
             else binSearch cmp array x (m + 1) r s')
      else (Inr (nat l), s))"
  by pat_completeness auto
termination
  by (relation "measure (\<lambda>(cmp, array, x, l, r, s). nat (r - l + 1))") auto

declare binSearch.simps [simp del]

definition binInsertIdx ::
  "'a list \<Rightarrow> 'a \<Rightarrow> ('a, 's) Comparator \<Rightarrow> 's \<Rightarrow> (error + nat) \<times> 's" where
  "binInsertIdx array x cmp s =
     (if length array < 1 then (Inr 0, s)
      else if x \<in> set array then (Inl ItemAlreadyInArray, s)
      else if length array = 1 then
        (case cmp (x, array ! 0) s of
           (None, s') \<Rightarrow> (Inl ComparatorFailure, s')
         | (Some c, s') \<Rightarrow> (Inr (if c then 0 else 1), s'))
      else binSearch cmp array x 0 (int (length array) - 1) s)"

section \<open>Merge-insertion sort\<close>

text \<open>
  \<open>pairs\<close> is a JavaScript \<open>Map\<close>: an association list in insertion order, where
  \<open>pairs.set(k, v)\<close> overwrites the value of a present key in place and appends an absent
  one (\<open>Map_set\<close>), \<open>pairs.get(k)\<close> is \<open>map_of\<close> and \<open>pairs.keys()\<close> is \<open>map fst\<close>.
\<close>

fun Map_set :: "('k \<times> 'v) list \<Rightarrow> 'k \<Rightarrow> 'v \<Rightarrow> ('k \<times> 'v) list" where
  "Map_set [] k v = [(k, v)]"
| "Map_set (p # ps) k v = (if fst p = k then (k, v) # ps else p # Map_set ps k v)"

lemma length_Map_set: "length (Map_set ps k v) \<le> length ps + 1"
  by (induction ps) simp_all

function mkPairs ::
  "('a, 's) Comparator \<Rightarrow> 'a list \<Rightarrow> nat \<Rightarrow> ('a \<times> 'a) list \<Rightarrow> 's
     \<Rightarrow> (error + ('a \<times> 'a) list) \<times> 's" where
  "mkPairs cmp array i pairs s =
     (if i + 1 < length array then
        (case cmp (array ! i, array ! (i + 1)) s of
           (None, s') \<Rightarrow> (Inl ComparatorFailure, s')
         | (Some c, s') \<Rightarrow>
             mkPairs cmp array (i + 2)
               (if c then Map_set pairs (array ! (i + 1)) (array ! i)
                else Map_set pairs (array ! i) (array ! (i + 1))) s')
      else (Inr pairs, s))"
  by pat_completeness auto
termination
  by (relation "measure (\<lambda>(cmp, array, i, pairs, s). length array - i)") auto

declare mkPairs.simps [simp del]

text \<open>
  The objects of the main chain. \<open>smaller = None\<close> is an absent (or \<open>undefined\<close>) property.
  The objects are shared between \<open>mainChain\<close>, \<open>toInsert\<close> and \<open>groups\<close>, are compared by
  identity (\<open>Object.is\<close>) and have their \<open>smaller\<close> property deleted through either
  reference, so they live in a store: a list of objects, a reference being an index
  into it. No object outlives the call that creates it, so every call has a store of its own.
\<close>

record 'a SortingPair =
  item :: 'a
  smaller :: "'a option"

type_synonym 'a store = "'a SortingPair list"

definition deleteSmaller :: "'a store \<Rightarrow> nat \<Rightarrow> 'a store" where
  "deleteSmaller h p = h[p := (h ! p)\<lparr>smaller := None\<rparr>]"

definition items :: "'a store \<Rightarrow> nat list \<Rightarrow> 'a list" where
  "items h chain = map (\<lambda>p. item (h ! p)) chain"

text \<open>\<open>findIndex\<close> returns \<open>-1\<close> when no element satisfies the predicate.\<close>

fun findIndex :: "('a \<Rightarrow> bool) \<Rightarrow> 'a list \<Rightarrow> int" where
  "findIndex P [] = - 1"
| "findIndex P (x # xs) =
     (if P x then 0 else (let r = findIndex P xs in if r < 0 then - 1 else r + 1))"

text \<open>\<open>array.splice(idx, 0, x)\<close> for \<open>idx \<ge> 0\<close>; an index past the end appends.\<close>

definition splice_at :: "'a list \<Rightarrow> nat \<Rightarrow> 'a \<Rightarrow> 'a list" where
  "splice_at xs idx x = take idx xs @ [x] @ drop idx xs"

text \<open>
  One iteration of the loop \<open>for (const pair of groups)\<close> of step 5. Both branches of the
  source call \<open>_binInsertIdx\<close> and return the item with the index found: \<open>searchArgs\<close> is
  the array and the item of that call. For the leftover item (no \<open>smaller\<close> property) the
  array is the whole main chain; otherwise it is the chain before the position
  \<open>pairIdx\<close> of the pair, found by identity. Then the new object is spliced in and the
  pair's \<open>smaller\<close> property deleted.
\<close>

definition searchArgs :: "'a store \<Rightarrow> nat list \<Rightarrow> nat \<Rightarrow> 'a list \<times> 'a" where
  "searchArgs h mainChain pair =
     (case smaller (h ! pair) of
        None \<Rightarrow> (items h mainChain, item (h ! pair))
      | Some y \<Rightarrow>
          (let pairIdx = findIndex (\<lambda>v. v = pair) mainChain
           in (items h (slice mainChain 0 pairIdx), y)))"

definition insertPair ::
  "('a, 's) Comparator \<Rightarrow> nat \<Rightarrow> 'a store \<Rightarrow> nat list \<Rightarrow> 's
     \<Rightarrow> (error + 'a store \<times> nat list) \<times> 's" where
  "insertPair cmp pair h mainChain s =
     (case searchArgs h mainChain pair of
        (array, insertItem) \<Rightarrow>
          (case binInsertIdx array insertItem cmp s of
             (Inl e, s') \<Rightarrow> (Inl e, s')
           | (Inr insertIdx, s') \<Rightarrow>
               (let h1 = h @ [\<lparr>item = insertItem, smaller = None\<rparr>];
                    mainChain' = splice_at mainChain insertIdx (length h);
                    h2 = deleteSmaller h1 pair
                in (Inr (h2, mainChain'), s'))))"

fun insertLoop ::
  "('a, 's) Comparator \<Rightarrow> nat list \<Rightarrow> 'a store \<Rightarrow> nat list \<Rightarrow> 's
     \<Rightarrow> (error + 'a store \<times> nat list) \<times> 's" where
  "insertLoop cmp [] h mainChain s = (Inr (h, mainChain), s)"
| "insertLoop cmp (pair # groups) h mainChain s =
     (case insertPair cmp pair h mainChain s of
        (Inl e, s') \<Rightarrow> (Inl e, s')
      | (Inr (h', mainChain'), s') \<Rightarrow> insertLoop cmp groups h' mainChain' s')"

text \<open>
  Everything after the recursive call: building the main chain from the sorted larger
  items (step 3a), moving the first pair's smaller item to the front (step 4), building
  \<open>toInsert\<close> and \<open>groups\<close>, the insertion loop (step 5) and the final \<open>map\<close>.
  Reading \<open>mainChain[0].smaller\<close> of an empty chain throws in the source; an \<open>undefined\<close>
  smaller item would become an item of the chain: both are the result \<open>UndefinedValue\<close> here.
\<close>

definition insertSmaller ::
  "('a, 's) Comparator \<Rightarrow> 'a list \<Rightarrow> ('a \<times> 'a) list \<Rightarrow> 'a list \<Rightarrow> 's
     \<Rightarrow> (error + 'a list) \<times> 's" where
  "insertSmaller cmp array pairs larger s =
     (let h0 = map (\<lambda>l. \<lparr>item = l, smaller = map_of pairs l\<rparr>) larger;
          mainChain0 = [0..<length larger]
      in case mainChain0 of
           [] \<Rightarrow> (Inl UndefinedValue, s)
         | first # _ \<Rightarrow>
             (case smaller (h0 ! first) of
                None \<Rightarrow> (Inl UndefinedValue, s)
              | Some y \<Rightarrow>
                  (let h1 = h0 @ [\<lparr>item = y, smaller = None\<rparr>];
                       mainChain1 = length h0 # mainChain0;
                       h2 = deleteSmaller h1 (mainChain1 ! 1);
                       toInsert = slice mainChain1 2 (int (length mainChain1));
                       h3 = (if length array mod 2 = 1
                             then h2 @ [\<lparr>item = array ! (length array - 1), smaller = None\<rparr>]
                             else h2);
                       toInsert' = (if length array mod 2 = 1 then toInsert @ [length h2]
                                    else toInsert);
                       groups = map snd (makeGroups toInsert')
                   in case insertLoop cmp groups h3 mainChain1 s of
                        (Inl e, s') \<Rightarrow> (Inl e, s')
                      | (Inr (h, mainChain), s') \<Rightarrow> (Inr (items h mainChain), s'))))"

lemma mkPairs_length:
  "mkPairs cmp array i pairs s = (Inr pairs', s') \<Longrightarrow>
     length pairs' \<le> length pairs + (length array - i) div 2"
proof (induction cmp array i pairs s rule: mkPairs.induct)
  case (1 cmp array i pairs s)
  show ?case
  proof (cases "i + 1 < length array")
    case False
    with "1.prems" show ?thesis by (simp add: mkPairs.simps)
  next
    case True
    obtain r s1 where c: "cmp (array ! i, array ! (i + 1)) s = (r, s1)"
      by (cases "cmp (array ! i, array ! (i + 1)) s")
    show ?thesis
    proof (cases r)
      case None
      with True c "1.prems" show ?thesis by (simp add: mkPairs.simps)
    next
      case (Some b)
      let ?ps = "if b then Map_set pairs (array ! (i + 1)) (array ! i)
                 else Map_set pairs (array ! i) (array ! (i + 1))"
      from True c Some "1.prems" have "mkPairs cmp array (i + 2) ?ps s1 = (Inr pairs', s')"
        by (simp add: mkPairs.simps[of cmp array i])
      from "1.IH"[OF True c[symmetric] Some this]
      have "length pairs' \<le> length ?ps + (length array - (i + 2)) div 2" .
      moreover have "length ?ps \<le> length pairs + 1"
        using length_Map_set[of pairs] by (cases b) simp_all
      moreover have "(length array - (i + 2)) div 2 + 1 = (length array - i) div 2"
        using True by presburger
      ultimately show ?thesis by linarith
    qed
  qed
qed

function mergeInsertionSort ::
  "('a, 's) Comparator \<Rightarrow> 'a list \<Rightarrow> 's \<Rightarrow> (error + 'a list) \<times> 's" where
  "mergeInsertionSort cmp array s =
     (if length array < 1 then (Inr [], s)
      else if length array = 1 then (Inr array, s)
      else if length array \<noteq> card (set array) then (Inl DuplicateItems, s)
      else if length array = 2 then
        (case cmp (array ! 0, array ! 1) s of
           (None, s') \<Rightarrow> (Inl ComparatorFailure, s')
         | (Some c, s') \<Rightarrow> (Inr (if c then array else [array ! 1, array ! 0]), s'))
      else
        (case mkPairs cmp array 0 [] s of
           (Inl e, s1) \<Rightarrow> (Inl e, s1)
         | (Inr pairs, s1) \<Rightarrow>
             (case mergeInsertionSort cmp (map fst pairs) s1 of
                (Inl e, s2) \<Rightarrow> (Inl e, s2)
              | (Inr larger, s2) \<Rightarrow> insertSmaller cmp array pairs larger s2)))"
  by pat_completeness auto
termination
proof (relation "measure (\<lambda>(cmp, array, s). length array)", goal_cases)
  case 1
  show ?case by simp
next
  case (2 cmp array s x1 s1 pairs)
  from 2 have "mkPairs cmp array 0 [] s = (Inr pairs, s1)" by simp
  from mkPairs_length[OF this] have "length pairs \<le> length array div 2" by simp
  moreover from 2(1) have "0 < length array" by simp
  ultimately have "length pairs < length array" by linarith
  then show ?case by simp
qed

declare mergeInsertionSort.simps [simp del]

section \<open>The bound on the number of comparisons\<close>

text \<open>
  \<open>mergeInsertionMaxComparisons\<close> computes with \<open>Math.log2\<close>, \<open>Math.ceil\<close>, \<open>Math.floor\<close>
  and \<open>**\<close>; the model computes the same expression over the reals (\<open>log 2\<close>, ceiling,
  floor, \<open>powr\<close>), so the rounding of the floating-point logarithm is not modelled.
  The argument is the number of items, an integer.
\<close>

definition mergeInsertionMaxComparisons :: "int \<Rightarrow> error + int" where
  "mergeInsertionMaxComparisons n =
     (if n < 0 then Inl InvalidArgument
      else if n \<noteq> 0 then
        Inr (n * \<lceil>log 2 (3 * real_of_int n / 4)\<rceil>
             - \<lfloor>2 powr real_of_int \<lfloor>log 2 (6 * real_of_int n)\<rfloor> / 3\<rfloor>
             + \<lfloor>log 2 (6 * real_of_int n) / 2\<rfloor>)
      else Inr 0)"

lemma three_not_dvd_pow2: "\<not> (3::int) dvd 2 ^ k"
proof
  assume "(3::int) dvd 2 ^ k"
  moreover have "coprime (3::int) (2 ^ k)"
    by (rule coprime_power_right_iff[THEN iffD2]) simp
  ultimately have "is_unit (3::int)"
    using coprime_absorb_left by (metis coprime_common_divisor dvd_refl)
  then show False by simp
qed

lemma two_powr_int: "2 powr real_of_int (int m) = (2::real) ^ m"
  by (simp add: powr_realpow)

lemma ceiling_log2_three_quarters:
  fixes n :: int and k :: nat
  assumes lo: "2 ^ (k + 1) < 3 * n" and hi: "3 * n \<le> 2 ^ (k + 2)"
  shows "\<lceil>log 2 (3 * real_of_int n / 4)\<rceil> = int k"
proof (rule ceiling_unique)
  have npos: "0 < real_of_int n" using lo
    by (smt (verit) of_int_0_less_iff zero_less_power)
  have lo': "2 ^ (k + 1) < 3 * real_of_int n"
    using lo by (metis (mono_tags) of_int_less_iff of_int_mult of_int_numeral of_int_power)
  have hi': "3 * real_of_int n \<le> 2 ^ (k + 2)"
    using hi by (metis (mono_tags) of_int_le_iff of_int_mult of_int_numeral of_int_power)
  have "2 powr (real_of_int (int k) - 1) < 3 * real_of_int n / 4"
    using lo' by (simp add: powr_diff powr_realpow)
  then show "real_of_int (int k) - 1 < log 2 (3 * real_of_int n / 4)"
    using npos by (simp add: less_log_iff)
  have "3 * real_of_int n / 4 \<le> 2 powr real_of_int (int k)"
    using hi' by (simp add: powr_realpow)
  then show "log 2 (3 * real_of_int n / 4) \<le> real_of_int (int k)"
    using npos by (simp add: log_le_iff)
qed

lemma floor_log2_six:
  fixes n :: int and k :: nat
  assumes lo: "2 ^ (k + 1) < 3 * n" and hi: "3 * n \<le> 2 ^ (k + 2)"
  shows "\<lfloor>log 2 (6 * real_of_int n)\<rfloor> = int k + 2"
proof -
  have "3 * n \<noteq> 2 ^ (k + 2)"
    using three_not_dvd_pow2[of "k + 2"] by (metis dvd_triv_left)
  with hi have hi2: "3 * n < 2 ^ (k + 2)" by simp
  have npos: "0 < real_of_int n" using lo
    by (smt (verit) of_int_0_less_iff zero_less_power)
  have lo': "2 ^ (k + 1) < 3 * real_of_int n"
    using lo by (metis (mono_tags) of_int_less_iff of_int_mult of_int_numeral of_int_power)
  have hi': "3 * real_of_int n < 2 ^ (k + 2)"
    using hi2 by (metis (mono_tags) of_int_less_iff of_int_mult of_int_numeral of_int_power)
  have "\<lfloor>log 2 (6 * real_of_int n)\<rfloor> = int (k + 2)"
  proof (subst floor_log_eq_powr_iff)
    show "0 < 6 * real_of_int n" using npos by simp
    show "(1::real) < 2" by simp
    have "2 powr real_of_int (int (k + 2)) = (2::real) ^ (k + 2)"
      by (rule two_powr_int)
    moreover have "2 powr real_of_int (int (k + 2) + 1) = (2::real) ^ (k + 3)"
      using two_powr_int[of "k + 3"] by (simp add: add.commute)
    ultimately show "2 powr real_of_int (int (k + 2)) \<le> 6 * real_of_int n \<and>
        6 * real_of_int n < 2 powr real_of_int (int (k + 2) + 1)"
      using lo' hi' by (simp add: power_add)
  qed
  then show ?thesis by simp
qed

lemma maxComparisons_formula:
  fixes n :: int and k :: nat
  assumes lo: "2 ^ (k + 1) < 3 * n" and hi: "3 * n \<le> 2 ^ (k + 2)"
  shows "mergeInsertionMaxComparisons n = Inr (n * int k - 2 ^ (k + 2) div 3 + (int k + 2) div 2)"
proof -
  have npos: "0 < n" using lo
    by (smt (verit) zero_less_power)
  have c: "\<lceil>log 2 (3 * real_of_int n / 4)\<rceil> = int k"
    by (rule ceiling_log2_three_quarters[OF lo hi])
  have f: "\<lfloor>log 2 (6 * real_of_int n)\<rfloor> = int k + 2"
    by (rule floor_log2_six[OF lo hi])
  have p: "2 powr real_of_int (int k + 2) = real_of_int (2 ^ (k + 2))"
    using two_powr_int[of "k + 2"] by (simp add: add.commute)
  have d: "\<lfloor>real_of_int (2 ^ (k + 2)) / 3\<rfloor> = (2 ^ (k + 2) div 3 :: int)"
    using floor_divide_of_int_eq[of "2 ^ (k + 2)" 3, where ?'a = real] by simp
  have h: "\<lfloor>log 2 (6 * real_of_int n) / 2\<rfloor> = (int k + 2) div 2"
    using floor_divide_real_eq_div[of 2 "log 2 (6 * real_of_int n)"] f by simp
  show ?thesis
    using npos unfolding mergeInsertionMaxComparisons_def c f p d h by simp
qed

section \<open>Duplicate items\<close>

text \<open>
  Claim C4. An input in which two items are equal (it then has at least two items) makes
  \<open>mergeInsertionSort\<close> fail with the duplicate-item error, and no comparator call
  precedes the failure: the comparator's state is returned as it was passed in, and for a
  logging comparator the log of calls is still empty.
\<close>

theorem duplicate_items_rejected:
  assumes "\<not> distinct array"
  shows "mergeInsertionSort cmp array s = (Inl DuplicateItems, s) \<and>
         mergeInsertionSort (traced cmp') array (s', []) = (Inl DuplicateItems, (s', []))"
proof -
  from assms have ne: "length array \<noteq> card (set array)"
    using card_distinct[of array] by auto
  have "2 \<le> length array"
  proof (cases array)
    case Nil
    with assms show ?thesis by simp
  next
    case (Cons x xs)
    with assms show ?thesis by (cases xs) simp_all
  qed
  then have "\<not> length array < 1" "length array \<noteq> 1" by auto
  with ne show ?thesis
    by (simp add: mergeInsertionSort.simps)
qed

theorem duplicate_items_rejected_witness:
  "\<not> distinct [1, 2, 2 :: nat] \<and>
   mergeInsertionSort (traced (orderComparator (<))) [1, 2, 2 :: nat] ((), [])
     = (Inl DuplicateItems, ((), []))"
  using duplicate_items_rejected[of "[1, 2, 2 :: nat]" "orderComparator (<)" "()" "orderComparator (<)" "()"]
  by simp

section \<open>Values of the bound\<close>

text \<open>
  Claim C5. \<open>mergeInsertionMaxComparisons\<close> fails with the invalid-argument error for every
  negative \<open>n\<close>, and for \<open>n = 0, 1, \<dots>, 10\<close> it returns
  \<open>0, 0, 1, 3, 5, 7, 10, 13, 16, 19, 22\<close>.
\<close>

theorem maxComparisons_values:
  "(n < 0 \<longrightarrow> mergeInsertionMaxComparisons n = Inl InvalidArgument) \<and>
   map mergeInsertionMaxComparisons [0, 1, 2, 3, 4, 5, 6, 7, 8, 9, 10]
     = map Inr [0, 0, 1, 3, 5, 7, 10, 13, 16, 19, 22]"
proof -
  have neg: "n < 0 \<longrightarrow> mergeInsertionMaxComparisons n = Inl InvalidArgument"
    by (simp add: mergeInsertionMaxComparisons_def)
  have zero: "mergeInsertionMaxComparisons 0 = Inr 0"
    by (simp add: mergeInsertionMaxComparisons_def)
  have "map mergeInsertionMaxComparisons [1, 2, 3, 4, 5, 6, 7, 8, 9, 10]
          = map Inr [0, 1, 3, 5, 7, 10, 13, 16, 19, 22]"
    using maxComparisons_formula[of 0 1] maxComparisons_formula[of 1 2]
      maxComparisons_formula[of 2 3] maxComparisons_formula[of 2 4]
      maxComparisons_formula[of 2 5] maxComparisons_formula[of 3 6]
      maxComparisons_formula[of 3 7] maxComparisons_formula[of 3 8]
      maxComparisons_formula[of 3 9] maxComparisons_formula[of 3 10]
    by simp
  with neg zero show ?thesis by simp
qed

theorem maxComparisons_values_witness:
  "(- 1 :: int) < 0 \<and> mergeInsertionMaxComparisons (- 1) = Inl InvalidArgument"
  using maxComparisons_values[of "- 1"] by simp

section \<open>The insertion order as the specification words it\<close>

text \<open>
  The specification's group sizes, \<open>size(1) = 2\<close> and \<open>size(i) = 2^i - size(i-1)\<close>, the
  partition of a list into consecutive groups of sizes \<open>size(g), size(g+1), \<dots>\<close> (the last
  group holds what is left), and the order it asks for: every group reversed, the groups
  concatenated in ascending order.
\<close>

fun groupSize_spec :: "nat \<Rightarrow> int" where
  "groupSize_spec i = (if i \<le> 1 then 2 else 2 ^ i - groupSize_spec (i - 1))"

declare groupSize_spec.simps [simp del]

lemma groupSize_spec_eq: "groupSize_spec (Suc k) = groupSize (Suc k)"
proof (induction k)
  case 0
  show ?case by (simp add: groupSize_spec.simps)
next
  case (Suc k)
  then show ?case by (simp add: groupSize_spec.simps[of "Suc (Suc k)"])
qed

lemma groupSize_spec_pos: "0 < groupSize_spec g"
proof (cases g)
  case 0
  then show ?thesis by (simp add: groupSize_spec.simps)
next
  case (Suc k)
  then show ?thesis by (simp add: groupSize_spec_eq groupSize_pos del: groupSize.simps)
qed

function groups_spec :: "nat \<Rightarrow> 'a list \<Rightarrow> 'a list list" where
  "groups_spec g xs =
     (if xs = [] then []
      else take (nat (groupSize_spec g)) xs
             # groups_spec (Suc g) (drop (nat (groupSize_spec g)) xs))"
  by pat_completeness auto
termination
proof (relation "measure (\<lambda>(g, xs). length xs)", goal_cases)
  case 1
  show ?case by simp
next
  case (2 g xs)
  then show ?case using groupSize_spec_pos[of g] by simp
qed

declare groups_spec.simps [simp del]

definition insertionOrder_spec :: "'a list \<Rightarrow> 'a list" where
  "insertionOrder_spec xs = concat (map rev (groups_spec 1 xs))"

lemma slice_nonneg:
  "0 \<le> b \<Longrightarrow> slice xs (int j) (int j + b) = take (nat b) (drop j xs)"
  by (auto simp: slice_def Let_def min_def)

lemma makeGroups_loop_spec:
  "makeGroups_loop xs k (int j) rv = rv @ concat (map rev (groups_spec (Suc k) (drop j xs)))"
proof (induction xs k "int j" rv arbitrary: j rule: makeGroups_loop.induct)
  case (1 xs k rv)
  let ?size = "groupSize (Suc k)"
  let ?rest = "drop j xs"
  let ?group = "take (nat ?size) ?rest"
  have pos: "0 < ?size" by (rule groupSize_pos)
  have sl: "slice xs (int j) (int j + ?size) = ?group"
    using pos by (simp add: slice_nonneg del: groupSize.simps)
  have sp: "groupSize_spec (Suc k) = ?size" by (rule groupSize_spec_eq)
  show ?case
  proof (cases "int (length ?group) < ?size")
    case True
    then have short: "length ?rest < nat ?size" by (simp del: groupSize.simps)
    then have g: "?group = ?rest" by (simp del: groupSize.simps)
    have "concat (map rev (groups_spec (Suc k) ?rest)) = rev ?rest"
    proof (cases "?rest = []")
      case True
      then show ?thesis by (simp add: groups_spec.simps)
    next
      case False
      have "drop (nat ?size) ?rest = []" using short by (simp del: groupSize.simps)
      with False g show ?thesis
        by (simp add: groups_spec.simps[of "Suc k" ?rest] groups_spec.simps[of _ "[]"] sp
                 del: groupSize.simps drop_eq_Nil2 drop_drop)
    qed
    with True sl g show ?thesis
      by (simp add: makeGroups_loop.simps[of xs k "int j"] Let_def del: groupSize.simps)
  next
    case False
    then have full: "nat ?size \<le> length ?rest" by (simp del: groupSize.simps)
    with pos have ne: "?rest \<noteq> []" by (auto simp del: groupSize.simps)
    have step: "int j + ?size = int (j + nat ?size)" using pos by simp
    have "makeGroups_loop xs (Suc k) (int (j + nat ?size)) (rv @ rev ?group)
            = (rv @ rev ?group) @ concat (map rev (groups_spec (Suc (Suc k)) (drop (j + nat ?size) xs)))"
      using "1.hyps"[OF refl refl refl _ step] False sl by (simp del: groupSize.simps)
    moreover have "drop (j + nat ?size) xs = drop (nat ?size) ?rest"
      by (simp add: add.commute)
    ultimately show ?thesis
      using False sl ne
      by (simp add: makeGroups_loop.simps[of xs k "int j"] Let_def step
            groups_spec.simps[of "Suc k" ?rest] sp del: groupSize.simps drop_drop)
  qed
qed

lemma groups_spec_map: "groups_spec g (map f xs) = map (map f) (groups_spec g xs)"
proof (induction g xs rule: groups_spec.induct)
  case (1 g xs)
  show ?case
  proof (cases "xs = []")
    case True
    then show ?thesis by (simp add: groups_spec.simps)
  next
    case False
    with "1.IH" show ?thesis
      by (simp add: groups_spec.simps[of g xs] groups_spec.simps[of g "map f xs"]
            take_map drop_map)
  qed
qed

lemma insertionOrder_spec_map: "map f (insertionOrder_spec xs) = insertionOrder_spec (map f xs)"
  by (simp add: insertionOrder_spec_def groups_spec_map map_concat rev_map comp_def)

lemma makeGroups_eq: "makeGroups xs = insertionOrder_spec (zip [0..<length xs] xs)"
  using makeGroups_loop_spec[of "zip [0..<length xs] xs" 0 0 "[]"]
  by (simp add: makeGroups_def insertionOrder_spec_def)

lemma groupSize_spec_values:
  "map groupSize_spec [1, 2, 3, 4, 5, 6, 7] = [2, 2, 6, 10, 22, 42, 86]"
  by (simp add: groupSize_spec.simps)

text \<open>
  Claim C6. \<open>_makeGroups\<close> returns the items of its argument, each tagged with its original
  index, partitioned into consecutive groups of the sizes \<open>2, 2, 6, 10, 22, 42, 86, \<dots>\<close> of the
  recurrence \<open>size(1) = 2\<close>, \<open>size(i) = 2^i - size(i-1)\<close> (the last group possibly shorter),
  every group reversed and the groups concatenated in ascending group order.
\<close>

theorem makeGroups_order:
  "makeGroups xs = insertionOrder_spec (zip [0..<length xs] xs) \<and>
   map snd (makeGroups xs) = insertionOrder_spec xs \<and>
   map groupSize_spec [1, 2, 3, 4, 5, 6, 7] = [2, 2, 6, 10, 22, 42, 86]"
proof -
  have "map snd (makeGroups xs) = insertionOrder_spec (map snd (zip [0..<length xs] xs))"
    by (simp only: makeGroups_eq insertionOrder_spec_map)
  then have "map snd (makeGroups xs) = insertionOrder_spec xs"
    by simp
  with makeGroups_eq[of xs] groupSize_spec_values show ?thesis by simp
qed

section \<open>Comparators derived from a strict total order\<close>

definition strictTotalOrderOn :: "'a set \<Rightarrow> ('a \<Rightarrow> 'a \<Rightarrow> bool) \<Rightarrow> bool" where
  "strictTotalOrderOn A lt \<longleftrightarrow>
     (\<forall>a\<in>A. \<not> lt a a) \<and>
     (\<forall>a\<in>A. \<forall>b\<in>A. \<forall>c\<in>A. lt a b \<longrightarrow> lt b c \<longrightarrow> lt a c) \<and>
     (\<forall>a\<in>A. \<forall>b\<in>A. a \<noteq> b \<longrightarrow> lt a b \<or> lt b a)"

text \<open>The comparator answers \<open>1\<close> exactly when its second argument is the greater one, whatever
  its own state, on any two different items of \<open>A\<close>.\<close>

definition derivedFrom :: "('a, 's) Comparator \<Rightarrow> ('a \<Rightarrow> 'a \<Rightarrow> bool) \<Rightarrow> 'a set \<Rightarrow> bool" where
  "derivedFrom cmp lt A \<longleftrightarrow>
     (\<forall>a\<in>A. \<forall>b\<in>A. \<forall>s. a \<noteq> b \<longrightarrow> fst (cmp (a, b) s) = Some (lt a b))"

lemma strictTotalOrderOn_irrefl: "strictTotalOrderOn A lt \<Longrightarrow> a \<in> A \<Longrightarrow> \<not> lt a a"
  by (simp add: strictTotalOrderOn_def)

lemma strictTotalOrderOn_trans:
  "strictTotalOrderOn A lt \<Longrightarrow> lt a b \<Longrightarrow> lt b c \<Longrightarrow> a \<in> A \<Longrightarrow> b \<in> A \<Longrightarrow> c \<in> A \<Longrightarrow> lt a c"
  unfolding strictTotalOrderOn_def by blast

lemma strictTotalOrderOn_total:
  "strictTotalOrderOn A lt \<Longrightarrow> a \<in> A \<Longrightarrow> b \<in> A \<Longrightarrow> a \<noteq> b \<Longrightarrow> \<not> lt a b \<Longrightarrow> lt b a"
  unfolding strictTotalOrderOn_def by blast

lemma strictTotalOrderOn_subset:
  "strictTotalOrderOn A lt \<Longrightarrow> B \<subseteq> A \<Longrightarrow> strictTotalOrderOn B lt"
  unfolding strictTotalOrderOn_def by blast

lemma derivedFrom_subset: "derivedFrom cmp lt A \<Longrightarrow> B \<subseteq> A \<Longrightarrow> derivedFrom cmp lt B"
  unfolding derivedFrom_def by blast

lemma derivedFrom_call:
  "derivedFrom cmp lt A \<Longrightarrow> a \<in> A \<Longrightarrow> b \<in> A \<Longrightarrow> a \<noteq> b \<Longrightarrow>
     \<exists>s'. cmp (a, b) s = (Some (lt a b), s')"
  unfolding derivedFrom_def by (metis prod.collapse)

lemma sorted_wrt_nth_split:
  assumes "sorted_wrt lt xs" and "m < length xs"
  shows "(\<forall>y\<in>set (take m xs). lt y (xs ! m)) \<and> (\<forall>y\<in>set (drop (Suc m) xs). lt (xs ! m) y)"
proof -
  have "xs = take m xs @ xs ! m # drop (Suc m) xs"
    using assms(2) by (rule id_take_nth_drop)
  then have "sorted_wrt lt (take m xs @ xs ! m # drop (Suc m) xs)"
    using assms(1) by simp
  then show ?thesis
    by (simp add: sorted_wrt_append)
qed

text \<open>What the binary search establishes: everything before the returned index is below the
  new item, everything from it on is above.\<close>

definition insertionPoint :: "('a \<Rightarrow> 'a \<Rightarrow> bool) \<Rightarrow> 'a list \<Rightarrow> 'a \<Rightarrow> nat \<Rightarrow> bool" where
  "insertionPoint lt array x i \<longleftrightarrow>
     i \<le> length array \<and> (\<forall>y\<in>set (take i array). lt y x) \<and> (\<forall>y\<in>set (drop i array). lt x y)"

lemma binSearch_insertionPoint:
  assumes "sorted_wrt lt array" and "x \<notin> set array"
    and "strictTotalOrderOn (insert x (set array)) lt"
    and "derivedFrom cmp lt (insert x (set array))"
    and "0 \<le> l" and "r < int (length array)" and "l \<le> r + 1"
    and "\<forall>y\<in>set (take (nat l) array). lt y x"
    and "\<forall>y\<in>set (drop (nat (r + 1)) array). lt x y"
  shows "\<exists>i s'. binSearch cmp array x l r s = (Inr i, s') \<and> insertionPoint lt array x i"
  using assms
proof (induction cmp array x l r s rule: binSearch.induct)
  case (1 cmp array x l r s)
  note so = "1.prems"(1) and nin = "1.prems"(2) and ord = "1.prems"(3) and der = "1.prems"(4)
    and l0 = "1.prems"(5) and rlen = "1.prems"(6) and lr = "1.prems"(7)
    and lo = "1.prems"(8) and hi = "1.prems"(9)
  show ?case
  proof (cases "l \<le> r")
    case False
    with lr have eq: "l = r + 1" by simp
    from False have "binSearch cmp array x l r s = (Inr (nat l), s)"
      by (simp add: binSearch.simps[of cmp array x l r])
    moreover have "insertionPoint lt array x (nat l)"
      using l0 rlen lo hi unfolding insertionPoint_def eq by simp
    ultimately show ?thesis by blast
  next
    case True
    define m where "m = l + (r - l) div 2"
    have mb: "l \<le> m" "m \<le> r" using True by (simp_all add: m_def)
    with l0 rlen have mlen: "nat m < length array" by simp
    then have am: "array ! nat m \<in> set array" by simp
    with nin have ne: "x \<noteq> array ! nat m" by auto
    from derivedFrom_call[OF der _ _ ne, of s] am
    obtain s1 where c: "cmp (x, array ! nat m) s = (Some (lt x (array ! nat m)), s1)"
      by auto
    from sorted_wrt_nth_split[OF so mlen]
    have below: "\<forall>y\<in>set (take (nat m) array). lt y (array ! nat m)"
      and above: "\<forall>y\<in>set (drop (Suc (nat m)) array). lt (array ! nat m) y" by simp_all
    show ?thesis
    proof (cases "lt x (array ! nat m)")
      case lt: True
      have "\<forall>y\<in>set (drop (nat (m - 1 + 1)) array). lt x y"
      proof
        fix y assume "y \<in> set (drop (nat (m - 1 + 1)) array)"
        then have "y \<in> set (array ! nat m # drop (Suc (nat m)) array)"
          using mlen by (simp add: Cons_nth_drop_Suc)
        then consider "y = array ! nat m" | "y \<in> set (drop (Suc (nat m)) array)" by auto
        then show "lt x y"
        proof cases
          case 1 with lt show ?thesis by simp
        next
          case 2
          then have "lt (array ! nat m) y" using above by simp
          moreover have "y \<in> set array" using 2 by (rule in_set_dropD)
          ultimately show ?thesis
            using strictTotalOrderOn_trans[OF ord lt, of y] am by simp
        qed
      qed
      from "1.IH"(1)[OF True m_def c[symmetric] refl lt so nin ord der l0 _ _ lo this] mb rlen
      obtain i s' where "binSearch cmp array x l (m - 1) s1 = (Inr i, s')"
        and "insertionPoint lt array x i" by auto
      with True c lt show ?thesis
        by (simp add: binSearch.simps[of cmp array x l r] m_def[symmetric])
    next
      case nlt: False
      have gt: "lt (array ! nat m) x"
        using strictTotalOrderOn_total[OF ord _ _ ne nlt] am by simp
      have "\<forall>y\<in>set (take (nat (m + 1)) array). lt y x"
      proof
        fix y assume "y \<in> set (take (nat (m + 1)) array)"
        moreover have "nat (m + 1) = Suc (nat m)" using mb l0 by simp
        ultimately have "y \<in> set (take (nat m) array @ [array ! nat m])"
          using mlen by (simp add: take_Suc_conv_app_nth)
        then consider "y = array ! nat m" | "y \<in> set (take (nat m) array)" by auto
        then show "lt y x"
        proof cases
          case 1 with gt show ?thesis by simp
        next
          case 2
          then have "lt y (array ! nat m)" using below by simp
          moreover have "y \<in> set array" using 2 by (rule in_set_takeD)
          ultimately show ?thesis
            using strictTotalOrderOn_trans[OF ord _ gt, of y] am by simp
        qed
      qed
      from "1.IH"(2)[OF True m_def c[symmetric] refl nlt so nin ord der _ rlen _ this hi] mb l0
      obtain i s' where "binSearch cmp array x (m + 1) r s1 = (Inr i, s')"
        and "insertionPoint lt array x i" by auto
      with True c nlt show ?thesis
        by (simp add: binSearch.simps[of cmp array x l r] m_def[symmetric])
    qed
  qed
qed

lemma binInsertIdx_insertionPoint:
  assumes so: "sorted_wrt lt array" and nin: "x \<notin> set array"
    and ord: "strictTotalOrderOn (insert x (set array)) lt"
    and der: "derivedFrom cmp lt (insert x (set array))"
  shows "\<exists>i s'. binInsertIdx array x cmp s = (Inr i, s') \<and> insertionPoint lt array x i"
proof -
  consider "length array < 1" | "length array = 1" | "1 < length array" by linarith
  then show ?thesis
  proof cases
    case 1
    then show ?thesis by (simp add: binInsertIdx_def insertionPoint_def)
  next
    case 2
    then obtain y where arr: "array = [y]" by (cases array) simp_all
    with nin have ne: "x \<noteq> y" by simp
    from derivedFrom_call[OF der _ _ ne, of s] arr
    obtain s1 where c: "cmp (x, y) s = (Some (lt x y), s1)" by auto
    have "\<not> lt x y \<Longrightarrow> lt y x"
      using strictTotalOrderOn_total[OF ord _ _ ne] arr by simp
    with arr ne c show ?thesis
      by (simp add: binInsertIdx_def insertionPoint_def)
  next
    case 3
    from binSearch_insertionPoint[OF so nin ord der, of 0 "int (length array) - 1" s]
    obtain i s' where "binSearch cmp array x 0 (int (length array) - 1) s = (Inr i, s')"
      and "insertionPoint lt array x i" by auto
    moreover from 3 have "\<not> length array < 1" "length array \<noteq> 1" by auto
    ultimately show ?thesis using nin by (simp add: binInsertIdx_def)
  qed
qed

lemma insertionPoint_sorted:
  assumes "sorted_wrt lt array" and "insertionPoint lt array x i"
  shows "sorted_wrt lt (splice_at array i x)"
proof -
  have "sorted_wrt lt (take i array @ drop i array)" using assms(1) by simp
  then have "sorted_wrt lt (take i array)" "sorted_wrt lt (drop i array)"
    "\<forall>a\<in>set (take i array). \<forall>b\<in>set (drop i array). lt a b"
    unfolding sorted_wrt_append by simp_all
  with assms(2) show ?thesis
    by (simp add: splice_at_def insertionPoint_def sorted_wrt_append)
qed

text \<open>
  Claim C7. For an array that is strictly ascending under the comparator's strict total
  order and an item that is not in it, \<open>_binInsertIdx\<close> returns an index \<open>i\<close> with
  \<open>0 \<le> i \<le> length\<close>, and inserting the item before position \<open>i\<close>
  (\<open>array.splice(i, 0, item)\<close>) gives an array that is again strictly ascending.
\<close>

theorem binInsertIdx_keeps_ascending:
  assumes "sorted_wrt lt array" and "x \<notin> set array"
    and "strictTotalOrderOn (insert x (set array)) lt"
    and "derivedFrom cmp lt (insert x (set array))"
  shows "\<exists>i s'. binInsertIdx array x cmp s = (Inr i, s') \<and> i \<le> length array \<and>
           sorted_wrt lt (splice_at array i x)"
proof -
  from binInsertIdx_insertionPoint[OF assms, of s]
  obtain i s' where r: "binInsertIdx array x cmp s = (Inr i, s')"
    and ip: "insertionPoint lt array x i" by auto
  from ip have "i \<le> length array" by (simp add: insertionPoint_def)
  moreover from assms(1) ip have "sorted_wrt lt (splice_at array i x)"
    by (rule insertionPoint_sorted)
  ultimately show ?thesis using r by blast
qed

lemma strictTotalOrderOn_less: "strictTotalOrderOn A ((<) :: 'a::linorder \<Rightarrow> 'a \<Rightarrow> bool)"
  unfolding strictTotalOrderOn_def by auto

lemma derivedFrom_orderComparator: "derivedFrom (orderComparator lt) lt A"
  unfolding derivedFrom_def orderComparator_def by simp

theorem binInsertIdx_keeps_ascending_witness:
  "sorted_wrt (<) [2, 4, 6, 8, 10 :: nat] \<and> (5 :: nat) \<notin> set [2, 4, 6, 8, 10] \<and>
   strictTotalOrderOn (insert 5 (set [2, 4, 6, 8, 10 :: nat])) (<) \<and>
   derivedFrom (orderComparator (<) :: (nat, unit) Comparator) (<) (insert 5 (set [2, 4, 6, 8, 10])) \<and>
   (\<exists>i s'. binInsertIdx [2, 4, 6, 8, 10 :: nat] 5 (orderComparator (<)) () = (Inr i, s') \<and>
      i \<le> length [2, 4, 6, 8, 10 :: nat] \<and> sorted_wrt (<) (splice_at [2, 4, 6, 8, 10 :: nat] i 5))"
proof -
  have a: "sorted_wrt (<) [2, 4, 6, 8, 10 :: nat]" by simp
  have b: "(5 :: nat) \<notin> set [2, 4, 6, 8, 10]" by simp
  have c: "strictTotalOrderOn (insert 5 (set [2, 4, 6, 8, 10 :: nat])) (<)"
    by (rule strictTotalOrderOn_less)
  have d: "derivedFrom (orderComparator (<) :: (nat, unit) Comparator) (<)
              (insert 5 (set [2, 4, 6, 8, 10]))"
    by (rule derivedFrom_orderComparator)
  from binInsertIdx_keeps_ascending[OF a b c d, of "()"] a b c d show ?thesis by blast
qed

section \<open>Outcomes of the binary search under any comparator\<close>

lemma binSearch_outcome:
  assumes "0 \<le> l" and "l \<le> r + 1" and "r < int (length array)"
    and "binSearch cmp array x l r s = (res, s')"
  shows "res = Inl ComparatorFailure \<or> (\<exists>i. res = Inr i \<and> i \<le> length array)"
  using assms
proof (induction cmp array x l r s rule: binSearch.induct)
  case (1 cmp array x l r s)
  show ?case
  proof (cases "l \<le> r")
    case False
    with "1.prems" show ?thesis
      by (auto simp: binSearch.simps[of cmp array x l r])
  next
    case True
    define m where "m = l + (r - l) div 2"
    have mb: "l \<le> m" "m \<le> r" using True by (simp_all add: m_def)
    obtain c s1 where c: "cmp (x, array ! nat m) s = (c, s1)"
      by (cases "cmp (x, array ! nat m) s")
    show ?thesis
    proof (cases c)
      case None
      with True c "1.prems"(4) show ?thesis
        by (simp add: binSearch.simps[of cmp array x l r] m_def[symmetric])
    next
      case (Some b)
      show ?thesis
      proof (cases b)
        case True
        from \<open>l \<le> r\<close> c Some True "1.prems"(4)
        have "binSearch cmp array x l (m - 1) s1 = (res, s')"
          by (simp add: binSearch.simps[of cmp array x l r] m_def[symmetric])
        from "1.IH"(1)[OF \<open>l \<le> r\<close> m_def c[symmetric] Some True "1.prems"(1) _ _ this]
          mb "1.prems"(3)
        show ?thesis by simp
      next
        case False
        from \<open>l \<le> r\<close> c Some False "1.prems"(4)
        have "binSearch cmp array x (m + 1) r s1 = (res, s')"
          by (simp add: binSearch.simps[of cmp array x l r] m_def[symmetric])
        from "1.IH"(2)[OF \<open>l \<le> r\<close> m_def c[symmetric] Some False _ _ "1.prems"(3) this]
          mb "1.prems"(1)
        show ?thesis by simp
      qed
    qed
  qed
qed

lemma binInsertIdx_outcome:
  assumes "x \<notin> set array" and "binInsertIdx array x cmp s = (res, s')"
  shows "res = Inl ComparatorFailure \<or> (\<exists>i. res = Inr i \<and> i \<le> length array)"
proof -
  consider "length array < 1" | "length array = 1" | "1 < length array" by linarith
  then show ?thesis
  proof cases
    case 1
    with assms show ?thesis by (auto simp: binInsertIdx_def)
  next
    case 2
    with assms show ?thesis
      by (auto simp: binInsertIdx_def split: prod.splits option.splits if_splits)
  next
    case 3
    then have "\<not> length array < 1" "length array \<noteq> 1" by auto
    with assms have "binSearch cmp array x 0 (int (length array) - 1) s = (res, s')"
      by (simp add: binInsertIdx_def)
    from binSearch_outcome[OF _ _ _ this] show ?thesis by simp
  qed
qed

section \<open>The pairs of step 1 and 2\<close>

lemma Map_set_fresh: "k \<notin> fst ` set ps \<Longrightarrow> Map_set ps k v = ps @ [(k, v)]"
  by (induction ps) auto

lemma mkPairs_outcome:
  assumes "distinct array" and "i \<le> length array"
    and "mset (map fst pairs) + mset (map snd pairs) = mset (take i array)"
    and "mkPairs cmp array i pairs s = (res, s')"
  shows "res = Inl ComparatorFailure \<or>
         (\<exists>pairs'. res = Inr pairs' \<and>
            length pairs' = length pairs + (length array - i) div 2 \<and>
            mset (map fst pairs') + mset (map snd pairs')
              = mset (take (i + 2 * ((length array - i) div 2)) array))"
  using assms
proof (induction cmp array i pairs s rule: mkPairs.induct)
  case (1 cmp array i pairs s)
  show ?case
  proof (cases "i + 1 < length array")
    case False
    then have "(length array - i) div 2 = 0" by simp
    with False "1.prems" show ?thesis
      by (auto simp: mkPairs.simps[of cmp array i])
  next
    case True
    let ?a = "array ! i" and ?b = "array ! (i + 1)"
    obtain c s1 where c: "cmp (?a, ?b) s = (c, s1)"
      by (cases "cmp (?a, ?b) s")
    show ?thesis
    proof (cases c)
      case None
      with True c "1.prems"(4) show ?thesis
        by (simp add: mkPairs.simps[of cmp array i])
    next
      case (Some b)
      let ?ps = "if b then Map_set pairs ?b ?a else Map_set pairs ?a ?b"
      have tk: "take (i + 2) array = take i array @ [?a, ?b]"
        using True by (simp add: take_Suc_conv_app_nth numeral_2_eq_2)
      have "distinct (take (i + 2) array)" using "1.prems"(1) by (rule distinct_take)
      then have nin: "?a \<notin> set (take i array)" "?b \<notin> set (take i array)" and ab: "?a \<noteq> ?b"
        unfolding tk by auto
      have "set (map fst pairs) \<subseteq> set (take i array)"
        using "1.prems"(3) by (metis mset_subset_eqD mset_subset_eq_add_left set_mset_mset subsetI)
      with nin have fresh: "?a \<notin> fst ` set pairs" "?b \<notin> fst ` set pairs" by auto
      have ps: "?ps = pairs @ [if b then (?b, ?a) else (?a, ?b)]"
        using fresh by (simp add: Map_set_fresh)
      have inv: "mset (map fst ?ps) + mset (map snd ?ps) = mset (take (i + 2) array)"
        unfolding ps tk using "1.prems"(3) by (cases b) (simp_all add: add.commute)
      have run: "mkPairs cmp array (i + 2) ?ps s1 = (res, s')"
        using True c Some "1.prems"(4) by (simp add: mkPairs.simps[of cmp array i])
      have le: "i + 2 \<le> length array" using True by simp
      from "1.IH"[OF True c[symmetric] Some "1.prems"(1) le inv run]
      have "res = Inl ComparatorFailure \<or>
         (\<exists>pairs'. res = Inr pairs' \<and>
            length pairs' = length ?ps + (length array - (i + 2)) div 2 \<and>
            mset (map fst pairs') + mset (map snd pairs')
              = mset (take (i + 2 + 2 * ((length array - (i + 2)) div 2)) array))" .
      moreover have "length ?ps = length pairs + 1" unfolding ps by simp
      moreover have "(length array - (i + 2)) div 2 + 1 = (length array - i) div 2"
        using True by presburger
      moreover have "i + 2 + 2 * ((length array - (i + 2)) div 2) = i + 2 * ((length array - i) div 2)"
        using True by presburger
      ultimately show ?thesis by (metis (no_types, lifting) add.assoc add.commute)
    qed
  qed
qed

section \<open>The main chain and the items waiting to be inserted\<close>

text \<open>The item the loop will insert for a pair: its \<open>smaller\<close> item, or for the object of
  the leftover item (which has no \<open>smaller\<close>) its \<open>item\<close>.\<close>

definition pendingItem :: "'a store \<Rightarrow> nat \<Rightarrow> 'a" where
  "pendingItem h p = (case smaller (h ! p) of None \<Rightarrow> item (h ! p) | Some y \<Rightarrow> y)"

text \<open>The state between two iterations of the insertion loop: all references are valid,
  no object is twice in the chain or in the rest of \<open>groups\<close>, an object of \<open>groups\<close> is in
  the chain exactly when it still has its \<open>smaller\<close> item, and the items of the chain and the
  items waiting are pairwise different.\<close>

definition chainInv :: "'a store \<Rightarrow> nat list \<Rightarrow> nat list \<Rightarrow> bool" where
  "chainInv h chain groups \<longleftrightarrow>
     (\<forall>p\<in>set chain. p < length h) \<and> (\<forall>p\<in>set groups. p < length h) \<and>
     distinct chain \<and> distinct groups \<and>
     (\<forall>p\<in>set groups. (smaller (h ! p) = None) = (p \<notin> set chain)) \<and>
     distinct (items h chain @ map (pendingItem h) groups)"

text \<open>The store and the chain after the iteration for \<open>pair\<close> that found the index \<open>idx\<close>.\<close>

definition inserted :: "'a store \<Rightarrow> nat list \<Rightarrow> nat \<Rightarrow> nat \<Rightarrow> 'a store \<times> nat list" where
  "inserted h chain pair idx =
     (deleteSmaller (h @ [\<lparr>item = pendingItem h pair, smaller = None\<rparr>]) pair,
      splice_at chain idx (length h))"

text \<open>The length of the part of the chain that is searched for \<open>pair\<close>.\<close>

definition searchLen :: "'a store \<Rightarrow> nat list \<Rightarrow> nat \<Rightarrow> nat" where
  "searchLen h chain pair = length (fst (searchArgs h chain pair))"

lemma findIndex_member:
  "p \<in> set xs \<Longrightarrow>
     \<exists>j. findIndex (\<lambda>v. v = p) xs = int j \<and> j < length xs \<and> xs ! j = p \<and> p \<notin> set (take j xs)"
proof (induction xs)
  case Nil
  then show ?case by simp
next
  case (Cons x xs)
  show ?case
  proof (cases "x = p")
    case True
    then show ?thesis by (intro exI[of _ 0]) simp
  next
    case False
    with Cons.prems have "p \<in> set xs" by simp
    from Cons.IH[OF this] obtain j where j: "findIndex (\<lambda>v. v = p) xs = int j"
      "j < length xs" "xs ! j = p" "p \<notin> set (take j xs)" by blast
    with False show ?thesis by (intro exI[of _ "Suc j"]) (simp add: Let_def)
  qed
qed

lemma slice_prefix: "j \<le> length xs \<Longrightarrow> slice xs 0 (int j) = take j xs"
  by (simp add: slice_def)

lemma items_take: "items h (take j chain) = take j (items h chain)"
  by (simp add: items_def take_map)

lemma length_items [simp]: "length (items h chain) = length chain"
  by (simp add: items_def)

lemma searchArgs_chainInv:
  assumes "chainInv h chain (p # groups)"
  shows "\<exists>j. j \<le> length chain \<and> searchArgs h chain p = (take j (items h chain), pendingItem h p) \<and>
              pendingItem h p \<notin> set (take j (items h chain)) \<and>
              (smaller (h ! p) = None \<longrightarrow> j = length chain) \<and>
              (smaller (h ! p) \<noteq> None \<longrightarrow> j < length chain \<and> chain ! j = p)"
proof (cases "smaller (h ! p)")
  case None
  from assms have "pendingItem h p \<notin> set (items h chain)"
    by (simp add: chainInv_def)
  with None show ?thesis
    by (intro exI[of _ "length chain"]) (simp add: searchArgs_def pendingItem_def)
next
  case (Some y)
  with assms have "p \<in> set chain" by (auto simp: chainInv_def)
  from findIndex_member[OF this] obtain j where j: "findIndex (\<lambda>v. v = p) chain = int j"
    "j < length chain" "chain ! j = p" by blast
  from assms have "pendingItem h p \<notin> set (items h chain)"
    by (simp add: chainInv_def)
  then have "pendingItem h p \<notin> set (take j (items h chain))"
    by (meson in_set_takeD)
  with Some j show ?thesis
    by (intro exI[of _ j]) (simp add: searchArgs_def pendingItem_def slice_prefix items_take)
qed

lemma insertPair_outcome:
  assumes inv: "chainInv h chain (p # groups)"
    and run: "insertPair cmp p h chain s = (res, s')"
  shows "res = Inl ComparatorFailure \<or>
         (\<exists>idx. idx \<le> searchLen h chain p \<and> res = Inr (inserted h chain p idx))"
proof -
  from searchArgs_chainInv[OF inv] obtain j where
    sa: "searchArgs h chain p = (take j (items h chain), pendingItem h p)"
    and nin: "pendingItem h p \<notin> set (take j (items h chain))" by blast
  obtain r s1 where b: "binInsertIdx (take j (items h chain)) (pendingItem h p) cmp s = (r, s1)"
    by (cases "binInsertIdx (take j (items h chain)) (pendingItem h p) cmp s")
  from binInsertIdx_outcome[OF nin b]
  show ?thesis
  proof
    assume "r = Inl ComparatorFailure"
    with run sa b show ?thesis by (simp add: insertPair_def)
  next
    assume "\<exists>i. r = Inr i \<and> i \<le> length (take j (items h chain))"
    then obtain i where i: "r = Inr i" "i \<le> length (take j (items h chain))" by blast
    with run sa b have "res = Inr (inserted h chain p i)"
      by (auto simp: insertPair_def inserted_def Let_def)
    with i sa show ?thesis by (auto simp: searchLen_def)
  qed
qed

lemma searchLen_le: "chainInv h chain (p # groups) \<Longrightarrow> searchLen h chain p \<le> length chain"
  using searchArgs_chainInv[of h chain p groups] by (auto simp: searchLen_def items_def)

lemma store_after_insert:
  assumes "r < length h"
  shows "item (deleteSmaller (h @ [n]) p ! r) = item (h ! r)"
    and "smaller (deleteSmaller (h @ [n]) p ! r) = (if r = p then None else smaller (h ! r))"
  using assms by (simp_all add: deleteSmaller_def nth_append nth_list_update)

lemma store_after_insert_new:
  assumes "p < length h"
  shows "deleteSmaller (h @ [n]) p ! length h = n"
  using assms by (simp add: deleteSmaller_def nth_append nth_list_update)

lemma length_deleteSmaller [simp]: "length (deleteSmaller h p) = length h"
  by (simp add: deleteSmaller_def)

lemma items_inserted:
  assumes "\<forall>r\<in>set chain. r < length h" and "p < length h"
  shows "items (deleteSmaller (h @ [\<lparr>item = x, smaller = None\<rparr>]) p) (splice_at chain idx (length h))
           = splice_at (items h chain) idx x"
proof -
  let ?h = "deleteSmaller (h @ [\<lparr>item = x, smaller = None\<rparr>]) p"
  have old: "map (\<lambda>r. item (?h ! r)) rs = map (\<lambda>r. item (h ! r)) rs" if "set rs \<subseteq> set chain" for rs
    using that assms(1) by (intro map_cong refl) (auto simp: store_after_insert)
  have "set (take idx chain) \<subseteq> set chain" "set (drop idx chain) \<subseteq> set chain"
    by (auto dest: in_set_takeD in_set_dropD)
  then show ?thesis
    using store_after_insert_new[OF assms(2), of "\<lparr>item = x, smaller = None\<rparr>"]
    by (simp add: items_def splice_at_def old take_map drop_map)
qed

lemma pendingItem_inserted:
  assumes "r < length h" and "r \<noteq> p"
  shows "pendingItem (deleteSmaller (h @ [n]) p) r = pendingItem h r"
  using assms by (simp add: pendingItem_def store_after_insert split: option.splits)

lemma mset_splice: "mset (splice_at xs idx x) = add_mset x (mset xs)"
proof -
  have "mset (take idx xs) + mset (drop idx xs) = mset xs"
    by (metis append_take_drop_id mset_append)
  then show ?thesis by (simp add: splice_at_def)
qed

lemma set_splice: "set (splice_at xs idx x) = insert x (set xs)"
  by (metis mset_splice set_mset_add_mset_insert set_mset_mset)

lemma distinct_splice: "distinct (splice_at xs idx x) \<longleftrightarrow> x \<notin> set xs \<and> distinct xs"
  by (metis distinct.simps(2) mset_splice mset.simps(2) mset_eq_imp_distinct_iff)

lemma chainInv_inserted:
  assumes inv: "chainInv h chain (p # groups)"
  shows "chainInv (fst (inserted h chain p idx)) (snd (inserted h chain p idx)) groups"
    and "items (fst (inserted h chain p idx)) (snd (inserted h chain p idx))
           = splice_at (items h chain) idx (pendingItem h p)"
    and "map (pendingItem (fst (inserted h chain p idx))) groups = map (pendingItem h) groups"
proof -
  let ?x = "pendingItem h p"
  let ?h = "deleteSmaller (h @ [\<lparr>item = ?x, smaller = None\<rparr>]) p"
  let ?c = "splice_at chain idx (length h)"
  from inv have valid: "\<forall>r\<in>set chain. r < length h" and gvalid: "\<forall>r\<in>set groups. r < length h"
    and p: "p < length h" and pg: "p \<notin> set groups"
    and dc: "distinct chain" and dg: "distinct groups"
    and sm: "\<forall>r\<in>set groups. (smaller (h ! r) = None) = (r \<notin> set chain)"
    and di: "distinct (items h chain @ ?x # map (pendingItem h) groups)"
    by (simp_all add: chainInv_def)
  show it: "items (fst (inserted h chain p idx)) (snd (inserted h chain p idx))
           = splice_at (items h chain) idx ?x"
    using items_inserted[OF valid p] by (simp add: inserted_def)
  show pe: "map (pendingItem (fst (inserted h chain p idx))) groups = map (pendingItem h) groups"
  proof (intro map_cong refl)
    fix r assume "r \<in> set groups"
    then have "r < length h" "r \<noteq> p" using gvalid pg by auto
    then show "pendingItem (fst (inserted h chain p idx)) r = pendingItem h r"
      by (simp add: inserted_def pendingItem_inserted)
  qed
  have it': "items ?h ?c = splice_at (items h chain) idx ?x"
    using it by (simp add: inserted_def)
  have pe': "map (pendingItem ?h) groups = map (pendingItem h) groups"
    using pe by (simp add: inserted_def)
  have 1: "\<forall>r\<in>set ?c. r < length ?h"
    using valid by (auto simp: set_splice)
  have 2: "\<forall>r\<in>set groups. r < length ?h" using gvalid by auto
  have 3: "distinct ?c" using dc valid by (auto simp: distinct_splice)
  have 4: "\<forall>r\<in>set groups. (smaller (?h ! r) = None) = (r \<notin> set ?c)"
    using sm gvalid pg by (auto simp: store_after_insert set_splice)
  have "distinct (splice_at (items h chain) idx ?x @ map (pendingItem h) groups)"
    using di by (auto simp: distinct_splice set_splice)
  then have 5: "distinct (items ?h ?c @ map (pendingItem ?h) groups)"
    by (simp only: it' pe')
  show "chainInv (fst (inserted h chain p idx)) (snd (inserted h chain p idx)) groups"
    unfolding chainInv_def inserted_def fst_conv snd_conv
    using 1 2 3 dg 4 5 by blast
qed

lemma insertLoop_outcome:
  assumes "chainInv h chain groups" and "insertLoop cmp groups h chain s = (res, s')"
  shows "res = Inl ComparatorFailure \<or>
         (\<exists>h' chain'. res = Inr (h', chain') \<and>
            mset (items h' chain') = mset (items h chain) + mset (map (pendingItem h) groups))"
  using assms
proof (induction groups arbitrary: h chain s)
  case Nil
  then show ?case by auto
next
  case (Cons p groups)
  obtain r s1 where step: "insertPair cmp p h chain s = (r, s1)"
    by (cases "insertPair cmp p h chain s")
  from insertPair_outcome[OF Cons.prems(1) step]
  show ?case
  proof
    assume "r = Inl ComparatorFailure"
    with Cons.prems(2) step show ?thesis by simp
  next
    assume "\<exists>idx. idx \<le> searchLen h chain p \<and> r = Inr (inserted h chain p idx)"
    then obtain idx where r: "r = Inr (inserted h chain p idx)" by blast
    obtain h1 chain1 where ins: "inserted h chain p idx = (h1, chain1)"
      by (cases "inserted h chain p idx")
    from chainInv_inserted[OF Cons.prems(1), of idx] ins
    have inv1: "chainInv h1 chain1 groups"
      and it: "items h1 chain1 = splice_at (items h chain) idx (pendingItem h p)"
      and pe: "map (pendingItem h1) groups = map (pendingItem h) groups" by simp_all
    from Cons.prems(2) step r ins have "insertLoop cmp groups h1 chain1 s1 = (res, s')"
      by simp
    from Cons.IH[OF inv1 this] show ?thesis
      by (auto simp: it pe mset_splice)
  qed
qed

section \<open>The order of insertion is a permutation\<close>

lemma concat_groups_spec: "concat (groups_spec g xs) = xs"
proof (induction g xs rule: groups_spec.induct)
  case (1 g xs)
  show ?case
  proof (cases "xs = []")
    case True
    then show ?thesis by (simp add: groups_spec.simps)
  next
    case False
    with "1.IH" show ?thesis by (simp add: groups_spec.simps[of g xs])
  qed
qed

lemma mset_concat_map_rev: "mset (concat (map rev xss)) = mset (concat xss)"
  by (induction xss) simp_all

lemma mset_insertionOrder_spec: "mset (insertionOrder_spec xs) = mset xs"
  by (simp add: insertionOrder_spec_def mset_concat_map_rev concat_groups_spec)

lemma makeGroups_items: "map snd (makeGroups xs) = insertionOrder_spec xs"
proof -
  have "map snd (makeGroups xs) = insertionOrder_spec (map snd (zip [0..<length xs] xs))"
    by (simp only: makeGroups_eq insertionOrder_spec_map)
  then show ?thesis by simp
qed

lemma mset_makeGroups: "mset (map snd (makeGroups xs)) = mset xs"
  by (simp only: makeGroups_items mset_insertionOrder_spec)

section \<open>The main chain before the insertion loop\<close>

text \<open>The store, the main chain and \<open>toInsert\<close> as \<open>insertSmaller\<close> builds them, for a
  non-empty list of larger items whose first one has the smaller item \<open>y\<close>.\<close>

definition initStore :: "'a list \<Rightarrow> ('a \<times> 'a) list \<Rightarrow> 'a list \<Rightarrow> 'a \<Rightarrow> 'a store" where
  "initStore array pairs larger y =
     (let h2 = deleteSmaller
                 (map (\<lambda>l. \<lparr>item = l, smaller = map_of pairs l\<rparr>) larger
                    @ [\<lparr>item = y, smaller = None\<rparr>]) 0
      in if length array mod 2 = 1
         then h2 @ [\<lparr>item = array ! (length array - 1), smaller = None\<rparr>] else h2)"

definition initChain :: "'a list \<Rightarrow> nat list" where
  "initChain larger = length larger # [0..<length larger]"

definition initToInsert :: "'a list \<Rightarrow> 'a list \<Rightarrow> nat list" where
  "initToInsert array larger =
     [1..<length larger] @ (if length array mod 2 = 1 then [Suc (length larger)] else [])"

lemma insertSmaller_unfold:
  assumes "larger \<noteq> []" and "map_of pairs (larger ! 0) = Some y"
  shows "insertSmaller cmp array pairs larger s =
          (case insertLoop cmp (map snd (makeGroups (initToInsert array larger)))
                  (initStore array pairs larger y) (initChain larger) s of
             (Inl e, s') \<Rightarrow> (Inl e, s')
           | (Inr (h, mainChain), s') \<Rightarrow> (Inr (items h mainChain), s'))"
proof -
  let ?k = "length larger"
  have k: "0 < ?k" using assms(1) by simp
  then have upt: "[0..<?k] = 0 # [1..<?k]" by (simp add: upt_conv_Cons)
  have sm: "smaller (map (\<lambda>l. \<lparr>item = l, smaller = map_of pairs l\<rparr>) larger ! 0) = Some y"
    using k assms(2) by simp
  have sl: "slice (?k # 0 # [Suc 0..<?k]) 2 (2 + int (?k - Suc 0)) = [Suc 0..<?k]"
    by (simp add: slice_def)
  show ?thesis
    unfolding insertSmaller_def Let_def upt list.case sm option.case
    by (simp add: sl initStore_def initChain_def initToInsert_def Let_def upt)
qed

lemma length_initStore:
  "length (initStore array pairs larger y)
     = length larger + 1 + (if length array mod 2 = 1 then 1 else 0)"
  by (simp add: initStore_def Let_def)

lemma initStore_nth:
  assumes "p < length larger"
  shows "item (initStore array pairs larger y ! p) = larger ! p"
    and "smaller (initStore array pairs larger y ! p)
           = (if p = 0 then None else map_of pairs (larger ! p))"
  using assms
  by (auto simp: initStore_def Let_def deleteSmaller_def nth_append nth_list_update)

lemma initStore_first:
  assumes "larger \<noteq> []"
  shows "initStore array pairs larger y ! length larger = \<lparr>item = y, smaller = None\<rparr>"
  using assms
  by (simp add: initStore_def Let_def deleteSmaller_def nth_append nth_list_update)

lemma initStore_leftover:
  assumes "length array mod 2 = 1"
  shows "initStore array pairs larger y ! Suc (length larger)
           = \<lparr>item = array ! (length array - 1), smaller = None\<rparr>"
  using assms
  by (simp add: initStore_def Let_def nth_append)

lemma map_of_keys_values:
  "distinct (map fst ps) \<Longrightarrow> map (\<lambda>k. the (map_of ps k)) (map fst ps) = map snd ps"
proof (induction ps)
  case Nil
  then show ?case by simp
next
  case (Cons p ps)
  have "map (\<lambda>k. the (map_of (p # ps) k)) (map fst ps) = map (\<lambda>k. the (map_of ps k)) (map fst ps)"
  proof (intro map_cong refl)
    fix k assume k: "k \<in> set (map fst ps)"
    from Cons.prems have "fst p \<notin> set (map fst ps)" by simp
    with k have "k \<noteq> fst p" by blast
    then show "the (map_of (p # ps) k) = the (map_of ps k)" by (cases p) simp
  qed
  moreover have "the (map_of (p # ps) (fst p)) = snd p" by (cases p) simp
  ultimately show ?case using Cons by simp
qed

lemma items_initChain:
  assumes "larger \<noteq> []"
  shows "items (initStore array pairs larger y) (initChain larger) = y # larger"
proof -
  have "map (\<lambda>p. item (initStore array pairs larger y ! p)) [0..<length larger] = larger"
    by (rule nth_equalityI) (simp_all add: initStore_nth)
  then show ?thesis
    using initStore_first[OF assms, of array pairs y] by (simp add: items_def initChain_def)
qed

lemma pending_initToInsert:
  assumes "larger \<noteq> []" and "\<forall>l\<in>set larger. map_of pairs l \<noteq> None"
  shows "map (pendingItem (initStore array pairs larger y)) (initToInsert array larger)
           = map (\<lambda>l. the (map_of pairs l)) (tl larger)
               @ (if length array mod 2 = 1 then [array ! (length array - 1)] else [])"
proof -
  let ?h = "initStore array pairs larger y"
  have "map (pendingItem ?h) [1..<length larger] = map (\<lambda>l. the (map_of pairs l)) (tl larger)"
  proof (rule nth_equalityI)
    show "length (map (pendingItem ?h) [1..<length larger])
            = length (map (\<lambda>l. the (map_of pairs l)) (tl larger))" by simp
  next
    fix i assume "i < length (map (pendingItem ?h) [1..<length larger])"
    then have i: "Suc i < length larger" by simp
    then have "map_of pairs (larger ! Suc i) \<noteq> None" using assms(2) by simp
    then obtain v where v: "map_of pairs (larger ! Suc i) = Some v" by blast
    have "map (pendingItem ?h) [1..<length larger] ! i = pendingItem ?h (Suc i)"
      using i by simp
    also have "\<dots> = v"
      using i v by (simp add: pendingItem_def initStore_nth)
    also have "\<dots> = the (map_of pairs (larger ! Suc i))"
      using v by simp
    also have "larger ! Suc i = tl larger ! i"
      using i by (simp add: nth_tl)
    finally show "map (pendingItem ?h) [1..<length larger] ! i
            = map (\<lambda>l. the (map_of pairs l)) (tl larger) ! i"
      using i by simp
  qed
  moreover have "length array mod 2 = 1 \<Longrightarrow>
      pendingItem ?h (Suc (length larger)) = array ! (length array - 1)"
    by (simp add: pendingItem_def initStore_leftover)
  ultimately show ?thesis by (simp add: initToInsert_def)
qed

lemma mset_take_even_odd:
  "mset (take (2 * (length array div 2)) array)
     + (if length array mod 2 = 1 then {#array ! (length array - 1)#} else {#}) = mset array"
proof (cases "length array mod 2 = 1")
  case True
  then have n: "2 * (length array div 2) = length array - 1" and pos: "0 < length array"
    by presburger+
  then have "array = take (length array - 1) array @ [array ! (length array - 1)]"
    by (metis Suc_pred' lessI take_Suc_conv_app_nth take_all order_refl)
  then have "mset array = mset (take (length array - 1) array) + {#array ! (length array - 1)#}"
    by (metis mset.simps(1) mset.simps(2) mset_append)
  with True n show ?thesis by simp
next
  case False
  then have "2 * (length array div 2) = length array" by presburger
  with False show ?thesis by simp
qed

lemma init_chainInv:
  assumes da: "distinct array"
    and msp: "mset (map fst pairs) + mset (map snd pairs)
                = mset (take (2 * (length array div 2)) array)"
    and ml: "mset larger = mset (map fst pairs)"
    and ne: "larger \<noteq> []"
    and mg: "mset groups = mset (initToInsert array larger)"
  shows "\<exists>y. map_of pairs (larger ! 0) = Some y \<and>
             chainInv (initStore array pairs larger y) (initChain larger) groups \<and>
             mset (items (initStore array pairs larger y) (initChain larger))
               + mset (map (pendingItem (initStore array pairs larger y)) groups) = mset array"
proof -
  let ?k = "length larger"
  let ?g = "\<lambda>l. the (map_of pairs l)"
  let ?odd = "length array mod 2 = 1"
  have "distinct (take (2 * (length array div 2)) array)" using da by (rule distinct_take)
  then have "distinct (map fst pairs @ map snd pairs)"
    using msp by (metis mset_append mset_eq_imp_distinct_iff)
  then have dk: "distinct (map fst pairs)" by simp
  have sl: "set larger = set (map fst pairs)" using ml by (rule mset_eq_setD)
  then have some: "\<forall>l\<in>set larger. map_of pairs l \<noteq> None"
    by (simp add: map_of_eq_None_iff)
  have "larger ! 0 \<in> set larger" using ne by simp
  with some obtain y where y: "map_of pairs (larger ! 0) = Some y" by blast
  let ?h = "initStore array pairs larger y"
  have gy: "?g (hd larger) = y" using y ne by (simp add: hd_conv_nth)
  have "image_mset ?g (mset larger) = mset (map snd pairs)"
    using map_of_keys_values[OF dk] ml by (metis mset_map)
  moreover have "mset larger = add_mset (hd larger) (mset (tl larger))"
    using ne by (cases larger) simp_all
  ultimately have vals: "add_mset y (mset (map ?g (tl larger))) = mset (map snd pairs)"
    using gy by simp
  have it: "items ?h (initChain larger) = y # larger" using ne by (rule items_initChain)
  have pe: "map (pendingItem ?h) (initToInsert array larger)
              = map ?g (tl larger) @ (if ?odd then [array ! (length array - 1)] else [])"
    using ne some by (rule pending_initToInsert)
  have pg0: "mset (map (pendingItem ?h) groups) = mset (map (pendingItem ?h) (initToInsert array larger))"
    using mg by (metis mset_map)
  have pg: "mset (map (pendingItem ?h) groups)
        = mset (map ?g (tl larger)) + (if ?odd then {#array ! (length array - 1)#} else {#})"
  proof -
    note pg0
    also have "mset (map (pendingItem ?h) (initToInsert array larger))
        = mset (map ?g (tl larger) @ (if ?odd then [array ! (length array - 1)] else []))"
      by (simp only: pe)
    also have "\<dots> = mset (map ?g (tl larger)) + (if ?odd then {#array ! (length array - 1)#} else {#})"
      by simp
    finally show ?thesis .
  qed
  have total: "mset (items ?h (initChain larger)) + mset (map (pendingItem ?h) groups) = mset array"
  proof -
    have "mset (items ?h (initChain larger)) + mset (map (pendingItem ?h) groups)
        = mset larger + add_mset y (mset (map ?g (tl larger)))
            + (if ?odd then {#array ! (length array - 1)#} else {#})"
      unfolding it pg by simp
    also have "\<dots> = mset (take (2 * (length array div 2)) array)
                   + (if ?odd then {#array ! (length array - 1)#} else {#})"
      by (simp only: vals ml msp)
    also have "\<dots> = mset array" by (rule mset_take_even_odd)
    finally show ?thesis .
  qed
  then have "mset (items ?h (initChain larger) @ map (pendingItem ?h) groups) = mset array"
    by simp
  then have 6: "distinct (items ?h (initChain larger) @ map (pendingItem ?h) groups)"
    using da by (metis mset_eq_imp_distinct_iff)
  have sg: "set groups = set (initToInsert array larger)" using mg by (rule mset_eq_setD)
  have 1: "\<forall>p\<in>set (initChain larger). p < length ?h"
    by (auto simp: initChain_def length_initStore)
  have 2: "\<forall>p\<in>set groups. p < length ?h"
    unfolding sg by (auto simp: initToInsert_def length_initStore)
  have 3: "distinct (initChain larger)" by (simp add: initChain_def)
  have "distinct (initToInsert array larger)" by (simp add: initToInsert_def)
  then have 4: "distinct groups" using mg by (metis mset_eq_imp_distinct_iff)
  have 5: "\<forall>p\<in>set groups. (smaller (?h ! p) = None) = (p \<notin> set (initChain larger))"
  proof
    fix p assume "p \<in> set groups"
    then have "p \<in> set (initToInsert array larger)" using sg by simp
    then consider "1 \<le> p" "p < ?k" | "?odd" "p = Suc ?k"
      by (auto simp: initToInsert_def split: if_splits)
    then show "(smaller (?h ! p) = None) = (p \<notin> set (initChain larger))"
    proof cases
      case 1
      then have "larger ! p \<in> set larger" by simp
      with some have "map_of pairs (larger ! p) \<noteq> None" by blast
      with 1 show ?thesis by (simp add: initStore_nth initChain_def)
    next
      case 2
      then show ?thesis by (simp add: initStore_leftover initChain_def)
    qed
  qed
  have "chainInv ?h (initChain larger) groups"
    unfolding chainInv_def using 1 2 3 4 5 6 by blast
  with y total show ?thesis by blast
qed

lemma insertSmaller_outcome:
  assumes da: "distinct array"
    and msp: "mset (map fst pairs) + mset (map snd pairs)
                = mset (take (2 * (length array div 2)) array)"
    and ml: "mset larger = mset (map fst pairs)"
    and ne: "larger \<noteq> []"
    and run: "insertSmaller cmp array pairs larger s = (res, s')"
  shows "res = Inl ComparatorFailure \<or> (\<exists>ys. res = Inr ys \<and> mset ys = mset array)"
proof -
  let ?groups = "map snd (makeGroups (initToInsert array larger))"
  have mg: "mset ?groups = mset (initToInsert array larger)" by (rule mset_makeGroups)
  from init_chainInv[OF da msp ml ne mg] obtain y where
    y: "map_of pairs (larger ! 0) = Some y"
    and inv: "chainInv (initStore array pairs larger y) (initChain larger) ?groups"
    and total: "mset (items (initStore array pairs larger y) (initChain larger))
               + mset (map (pendingItem (initStore array pairs larger y)) ?groups) = mset array"
    by blast
  obtain r s1 where loop: "insertLoop cmp ?groups (initStore array pairs larger y)
      (initChain larger) s = (r, s1)"
    by (cases "insertLoop cmp ?groups (initStore array pairs larger y) (initChain larger) s")
  from run have res: "(res, s') = (case r of Inl e \<Rightarrow> (Inl e, s1)
      | Inr (h, mainChain) \<Rightarrow> (Inr (items h mainChain), s1))"
    unfolding insertSmaller_unfold[OF ne y] loop by (simp split: sum.splits prod.splits)
  from insertLoop_outcome[OF inv loop] show ?thesis
  proof
    assume "r = Inl ComparatorFailure"
    with res show ?thesis by simp
  next
    assume "\<exists>h' chain'. r = Inr (h', chain') \<and>
        mset (items h' chain') = mset (items (initStore array pairs larger y) (initChain larger))
          + mset (map (pendingItem (initStore array pairs larger y)) ?groups)"
    then obtain h' chain' where "r = Inr (h', chain')" "mset (items h' chain') = mset array"
      using total by auto
    with res show ?thesis by simp
  qed
qed

text \<open>
  Whatever the comparator answers, a call on pairwise different items either fails because
  the comparator was rejected or returns a rearrangement of its input. In particular the
  results \<open>UndefinedValue\<close> and \<open>ItemAlreadyInArray\<close> do not occur.
\<close>

lemma mergeInsertionSort_outcome:
  assumes "distinct array" and "mergeInsertionSort cmp array s = (res, s')"
  shows "res = Inl ComparatorFailure \<or> (\<exists>ys. res = Inr ys \<and> mset ys = mset array)"
  using assms
proof (induction cmp array s arbitrary: res s' rule: mergeInsertionSort.induct)
  case (1 cmp array s)
  note da = "1.prems"(1) and run = "1.prems"(2)
  from da have card: "length array = card (set array)" by (simp add: distinct_card)
  consider "length array < 1" | "length array = 1" | "length array = 2" | "3 \<le> length array"
    by linarith
  then show ?case
  proof cases
    case 1
    with run show ?thesis by (simp add: mergeInsertionSort.simps)
  next
    case 2
    with run show ?thesis by (auto simp: mergeInsertionSort.simps)
  next
    case 3
    then obtain a b where ab: "array = [a, b]"
      by (cases array rule: list.exhaust[case_product list.exhaust]) (auto simp: length_Suc_conv)
    with da have "a \<noteq> b" by simp
    with run show ?thesis unfolding ab
      by (auto simp: mergeInsertionSort.simps[of cmp "[a, b]"]
               split: prod.splits option.splits if_splits)
  next
    case 4
    then have c: "\<not> length array < 1" "length array \<noteq> 1" "length array \<noteq> 2" by auto
    obtain r1 s1 where mk: "mkPairs cmp array 0 [] s = (r1, s1)"
      by (cases "mkPairs cmp array 0 [] s")
    from mkPairs_outcome[OF da _ _ mk]
    have "r1 = Inl ComparatorFailure \<or>
         (\<exists>pairs'. r1 = Inr pairs' \<and> length pairs' = length array div 2 \<and>
            mset (map fst pairs') + mset (map snd pairs')
              = mset (take (2 * (length array div 2)) array))" by simp
    then show ?thesis
    proof
      assume "r1 = Inl ComparatorFailure"
      with run c card mk show ?thesis by (simp add: mergeInsertionSort.simps[of cmp array])
    next
      assume "\<exists>pairs'. r1 = Inr pairs' \<and> length pairs' = length array div 2 \<and>
            mset (map fst pairs') + mset (map snd pairs')
              = mset (take (2 * (length array div 2)) array)"
      then obtain pairs where r1: "r1 = Inr pairs" and len: "length pairs = length array div 2"
        and msp: "mset (map fst pairs) + mset (map snd pairs)
              = mset (take (2 * (length array div 2)) array)" by blast
      have "distinct (take (2 * (length array div 2)) array)" using da by (rule distinct_take)
      then have "distinct (map fst pairs @ map snd pairs)"
        using msp by (metis mset_append mset_eq_imp_distinct_iff)
      then have dk: "distinct (map fst pairs)" by simp
      obtain r2 s2 where rec: "mergeInsertionSort cmp (map fst pairs) s1 = (r2, s2)"
        by (cases "mergeInsertionSort cmp (map fst pairs) s1")
      from "1.IH"[OF c(1) c(2) _ c(3) mk[symmetric, unfolded r1] refl dk rec] card
      have "r2 = Inl ComparatorFailure \<or> (\<exists>ys. r2 = Inr ys \<and> mset ys = mset (map fst pairs))"
        by simp
      then show ?thesis
      proof
        assume "r2 = Inl ComparatorFailure"
        with run c card mk r1 rec show ?thesis
          by (simp add: mergeInsertionSort.simps[of cmp array])
      next
        assume "\<exists>ys. r2 = Inr ys \<and> mset ys = mset (map fst pairs)"
        then obtain larger where r2: "r2 = Inr larger" and ml: "mset larger = mset (map fst pairs)"
          by blast
        from ml have "length larger = length pairs"
          by (metis length_map mset_eq_length)
        with len 4 have ne: "larger \<noteq> []" by auto
        from run c card mk r1 rec r2
        have "insertSmaller cmp array pairs larger s2 = (res, s')"
          by (simp add: mergeInsertionSort.simps[of cmp array])
        from insertSmaller_outcome[OF da msp ml ne this] show ?thesis .
      qed
    qed
  qed
qed

section \<open>The result is a permutation\<close>

text \<open>
  Claim C10. For an input array of pairwise different items and any comparator whatsoever
  (any answers, consistent with an order or not, depending on its own state or not), a
  call of \<open>mergeInsertionSort\<close> that returns successfully returns a permutation of the
  input: the same items, each exactly once.
\<close>

theorem mergeInsertionSort_permutation:
  assumes "distinct array" and "mergeInsertionSort cmp array s = (Inr ys, s')"
  shows "mset ys = mset array \<and> distinct ys"
proof -
  from mergeInsertionSort_outcome[OF assms] have "mset ys = mset array" by simp
  moreover from this assms(1) have "distinct ys" by (metis mset_eq_imp_distinct_iff)
  ultimately show ?thesis by simp
qed

theorem mergeInsertionSort_permutation_witness:
  "distinct [3, 1, 2, 5, 4 :: nat] \<and>
   mergeInsertionSort (\<lambda>ab s. (Some True, s)) [3, 1, 2, 5, 4 :: nat] () = (Inr [2, 4, 3, 1, 5], ()) \<and>
   mset [2, 4, 3, 1, 5 :: nat] = mset [3, 1, 2, 5, 4] \<and> distinct [2, 4, 3, 1, 5 :: nat]"
proof -
  have d: "distinct [3, 1, 2, 5, 4 :: nat]" by simp
  have r: "mergeInsertionSort (\<lambda>ab s. (Some True, s)) [3, 1, 2, 5, 4 :: nat] ()
             = (Inr [2, 4, 3, 1, 5], ())" by code_simp
  from mergeInsertionSort_permutation[OF d r] d r show ?thesis by simp
qed

section \<open>Sorting with a comparator derived from a strict total order\<close>

lemma mkPairs_ordered:
  assumes "distinct array" and "i \<le> length array"
    and "mset (map fst pairs) + mset (map snd pairs) = mset (take i array)"
    and "strictTotalOrderOn (set array) lt" and "derivedFrom cmp lt (set array)"
    and "\<forall>(l, y)\<in>set pairs. lt y l"
  shows "\<exists>pairs' s'. mkPairs cmp array i pairs s = (Inr pairs', s') \<and> (\<forall>(l, y)\<in>set pairs'. lt y l)"
  using assms
proof (induction cmp array i pairs s rule: mkPairs.induct)
  case (1 cmp array i pairs s)
  note da = "1.prems"(1) and ord = "1.prems"(4) and der = "1.prems"(5) and inv = "1.prems"(6)
  show ?case
  proof (cases "i + 1 < length array")
    case False
    with inv show ?thesis by (simp add: mkPairs.simps[of cmp array i])
  next
    case True
    let ?a = "array ! i" and ?b = "array ! (i + 1)"
    have mem: "?a \<in> set array" "?b \<in> set array" using True by simp_all
    have tk: "take (i + 2) array = take i array @ [?a, ?b]"
      using True by (simp add: take_Suc_conv_app_nth numeral_2_eq_2)
    have "distinct (take (i + 2) array)" using da by (rule distinct_take)
    then have nin: "?a \<notin> set (take i array)" "?b \<notin> set (take i array)" and ab: "?a \<noteq> ?b"
      unfolding tk by auto
    from derivedFrom_call[OF der mem ab, of s]
    obtain s1 where c: "cmp (?a, ?b) s = (Some (lt ?a ?b), s1)" by blast
    let ?ps = "if lt ?a ?b then Map_set pairs ?b ?a else Map_set pairs ?a ?b"
    have "set (map fst pairs) \<subseteq> set (take i array)"
      using "1.prems"(3) by (metis mset_subset_eqD mset_subset_eq_add_left set_mset_mset subsetI)
    with nin have fresh: "?a \<notin> fst ` set pairs" "?b \<notin> fst ` set pairs" by auto
    have ps: "?ps = pairs @ [if lt ?a ?b then (?b, ?a) else (?a, ?b)]"
      using fresh by (simp add: Map_set_fresh)
    have inv2: "mset (map fst ?ps) + mset (map snd ?ps) = mset (take (i + 2) array)"
      unfolding ps tk using "1.prems"(3) by (cases "lt ?a ?b") (simp_all add: add.commute)
    have "\<not> lt ?a ?b \<Longrightarrow> lt ?b ?a"
      using strictTotalOrderOn_total[OF ord mem ab] .
    with inv have inv3: "\<forall>(l, y)\<in>set ?ps. lt y l"
      unfolding ps by auto
    have le: "i + 2 \<le> length array" using True by simp
    from "1.IH"[OF True c[symmetric] refl da le inv2 ord der inv3]
    obtain pairs' s' where "mkPairs cmp array (i + 2) ?ps s1 = (Inr pairs', s')"
      and "\<forall>(l, y)\<in>set pairs'. lt y l" by blast
    with True c show ?thesis
      by (simp add: mkPairs.simps[of cmp array i])
  qed
qed

text \<open>While the loop runs the chain is ascending, and every item still waiting is below
  the chain item it was paired with.\<close>

definition sortedInv :: "('a \<Rightarrow> 'a \<Rightarrow> bool) \<Rightarrow> 'a store \<Rightarrow> nat list \<Rightarrow> nat list \<Rightarrow> bool" where
  "sortedInv lt h chain groups \<longleftrightarrow>
     sorted_wrt lt (items h chain) \<and>
     (\<forall>p\<in>set groups. \<forall>y. smaller (h ! p) = Some y \<longrightarrow> lt y (item (h ! p)))"

lemma insertionPoint_extend:
  assumes ip: "insertionPoint lt (take j xs) x idx"
    and rest: "\<forall>z\<in>set (drop j xs). lt x z"
  shows "insertionPoint lt xs x idx"
proof -
  from ip have idx: "idx \<le> length (take j xs)"
    and lo: "\<forall>y\<in>set (take idx (take j xs)). lt y x"
    and hi: "\<forall>y\<in>set (drop idx (take j xs)). lt x y"
    by (simp_all add: insertionPoint_def)
  from idx have ij: "idx \<le> j" "idx \<le> length xs" by simp_all
  then have t: "take idx (take j xs) = take idx xs" by (simp add: min_absorb1)
  have "drop idx (take j xs @ drop j xs) = drop idx (take j xs) @ drop j xs"
    using idx by (simp del: append_take_drop_id)
  then have "drop idx xs = drop idx (take j xs) @ drop j xs"
    by simp
  with lo hi rest t ij show ?thesis
    by (auto simp: insertionPoint_def)
qed

lemma insertPair_sorted:
  assumes inv: "chainInv h chain (p # groups)"
    and so: "sortedInv lt h chain (p # groups)"
    and sub: "set (items h chain) \<union> set (map (pendingItem h) (p # groups)) \<subseteq> A"
    and ord: "strictTotalOrderOn A lt" and der: "derivedFrom cmp lt A"
  shows "\<exists>idx s'. insertPair cmp p h chain s = (Inr (inserted h chain p idx), s') \<and>
           idx \<le> searchLen h chain p \<and>
           sortedInv lt (fst (inserted h chain p idx)) (snd (inserted h chain p idx)) groups"
proof -
  let ?x = "pendingItem h p"
  let ?xs = "items h chain"
  from searchArgs_chainInv[OF inv] obtain j where
    J: "j \<le> length chain \<and> searchArgs h chain p = (take j ?xs, ?x) \<and>
        ?x \<notin> set (take j ?xs) \<and>
        (smaller (h ! p) = None \<longrightarrow> j = length chain) \<and>
        (smaller (h ! p) \<noteq> None \<longrightarrow> j < length chain \<and> chain ! j = p)" ..
  from J have j: "j \<le> length chain" by (rule conjunct1)
  from J have sa: "searchArgs h chain p = (take j ?xs, ?x)" by (elim conjE)
  from J have nin: "?x \<notin> set (take j ?xs)" by (elim conjE)
  from J have none: "smaller (h ! p) = None \<longrightarrow> j = length chain" by (elim conjE)
  from J have some: "smaller (h ! p) \<noteq> None \<longrightarrow> j < length chain \<and> chain ! j = p"
    by (elim conjE)
  from so have sorted: "sorted_wrt lt ?xs"
    and below: "\<forall>y. smaller (h ! p) = Some y \<longrightarrow> lt y (item (h ! p))"
    and others: "\<forall>q\<in>set groups. \<forall>y. smaller (h ! q) = Some y \<longrightarrow> lt y (item (h ! q))"
    by (simp_all add: sortedInv_def)
  have xA: "?x \<in> A" and xsA: "set ?xs \<subseteq> A" using sub by auto
  have subA: "insert ?x (set (take j ?xs)) \<subseteq> A"
    using xA xsA by (auto dest: in_set_takeD)
  have "sorted_wrt lt (take j ?xs)" using sorted by (rule sorted_wrt_take)
  from binInsertIdx_insertionPoint[OF this nin strictTotalOrderOn_subset[OF ord subA]
      derivedFrom_subset[OF der subA], of s]
  obtain idx s' where b: "binInsertIdx (take j ?xs) ?x cmp s = (Inr idx, s')"
    and ip: "insertionPoint lt (take j ?xs) ?x idx" by blast
  have rest: "\<forall>z\<in>set (drop j ?xs). lt ?x z"
  proof (cases "smaller (h ! p)")
    case None
    with none j show ?thesis by simp
  next
    case (Some y)
    with some have jl: "j < length chain" and cj: "chain ! j = p" by simp_all
    then have xj: "?xs ! j = item (h ! p)" by (simp add: items_def)
    from Some have xy: "?x = y" by (simp add: pendingItem_def)
    from below Some xy have lt: "lt ?x (?xs ! j)" by (simp add: xj)
    have jA: "?xs ! j \<in> A" using xsA jl by (metis length_items nth_mem subsetD)
    show ?thesis
    proof
      fix z assume "z \<in> set (drop j ?xs)"
      then have z: "z \<in> set (?xs ! j # drop (Suc j) ?xs)"
        using jl by (simp add: Cons_nth_drop_Suc)
      show "lt ?x z"
      proof (cases "z = ?xs ! j")
        case True
        with lt show ?thesis by simp
      next
        case False
        with z have zd: "z \<in> set (drop (Suc j) ?xs)" by simp
        then have "lt (?xs ! j) z"
          using sorted_wrt_nth_split[OF sorted, of j] jl by simp
        moreover have "z \<in> A" using zd xsA by (meson in_set_dropD subsetD)
        ultimately show ?thesis
          using strictTotalOrderOn_trans[OF ord lt _ xA jA] by blast
      qed
    qed
  qed
  from insertionPoint_extend[OF ip rest] have ip': "insertionPoint lt ?xs ?x idx" .
  from ip have idx: "idx \<le> searchLen h chain p"
    by (simp add: insertionPoint_def searchLen_def sa)
  have run: "insertPair cmp p h chain s = (Inr (inserted h chain p idx), s')"
    using sa b by (simp add: insertPair_def inserted_def Let_def)
  from chainInv_inserted[OF inv, of idx]
  have it: "items (fst (inserted h chain p idx)) (snd (inserted h chain p idx))
              = splice_at ?xs idx ?x" by simp
  have s1: "sorted_wrt lt (items (fst (inserted h chain p idx)) (snd (inserted h chain p idx)))"
    unfolding it using sorted ip' by (rule insertionPoint_sorted)
  from inv have gvalid: "\<forall>q\<in>set groups. q < length h" and pg: "p \<notin> set groups"
    by (simp_all add: chainInv_def)
  have s2: "\<forall>q\<in>set groups. \<forall>y. smaller (fst (inserted h chain p idx) ! q) = Some y
             \<longrightarrow> lt y (item (fst (inserted h chain p idx) ! q))"
  proof (intro ballI allI impI)
    fix q y assume q: "q \<in> set groups"
      and sm: "smaller (fst (inserted h chain p idx) ! q) = Some y"
    from q gvalid pg have ql: "q < length h" and qp: "q \<noteq> p" by auto
    from sm ql qp have "smaller (h ! q) = Some y"
      by (simp add: inserted_def store_after_insert)
    with others q have "lt y (item (h ! q))" by blast
    with ql show "lt y (item (fst (inserted h chain p idx) ! q))"
      by (simp add: inserted_def store_after_insert)
  qed
  from s1 s2 have "sortedInv lt (fst (inserted h chain p idx)) (snd (inserted h chain p idx)) groups"
    by (simp add: sortedInv_def)
  with run idx show ?thesis by blast
qed

lemma insertLoop_sorted:
  assumes "chainInv h chain groups" and "sortedInv lt h chain groups"
    and "set (items h chain) \<union> set (map (pendingItem h) groups) \<subseteq> A"
    and "strictTotalOrderOn A lt" and "derivedFrom cmp lt A"
  shows "\<exists>h' chain' s'. insertLoop cmp groups h chain s = (Inr (h', chain'), s') \<and>
           sorted_wrt lt (items h' chain')"
  using assms(1-3)
proof (induction groups arbitrary: h chain s)
  case Nil
  then show ?case by (simp add: sortedInv_def)
next
  case (Cons p groups)
  from insertPair_sorted[OF Cons.prems(1,2,3) assms(4,5), of s]
  obtain idx s1 where step: "insertPair cmp p h chain s = (Inr (inserted h chain p idx), s1)"
    and so1: "sortedInv lt (fst (inserted h chain p idx)) (snd (inserted h chain p idx)) groups"
    by blast
  obtain h1 chain1 where ins: "inserted h chain p idx = (h1, chain1)"
    by (cases "inserted h chain p idx")
  from chainInv_inserted[OF Cons.prems(1), of idx] ins
  have inv1: "chainInv h1 chain1 groups"
    and it: "items h1 chain1 = splice_at (items h chain) idx (pendingItem h p)"
    and pe: "map (pendingItem h1) groups = map (pendingItem h) groups" by simp_all
  have sub1: "set (items h1 chain1) \<union> set (map (pendingItem h1) groups) \<subseteq> A"
    unfolding it pe using Cons.prems(3) by (auto simp: set_splice)
  from so1 ins have so1': "sortedInv lt h1 chain1 groups" by simp
  from Cons.IH[OF inv1 so1' sub1, of s1]
  obtain h' chain' s' where "insertLoop cmp groups h1 chain1 s1 = (Inr (h', chain'), s')"
    and "sorted_wrt lt (items h' chain')" by blast
  with step ins show ?case by simp
qed

lemma init_sortedInv:
  assumes so: "sorted_wrt lt larger" and ne: "larger \<noteq> []"
    and y: "map_of pairs (larger ! 0) = Some y"
    and po: "\<forall>(l, y)\<in>set pairs. lt y l"
    and ord: "strictTotalOrderOn A lt"
    and sub: "set (map fst pairs) \<union> set (map snd pairs) \<subseteq> A" "set larger \<subseteq> A"
    and sg: "set groups \<subseteq> set (initToInsert array larger)"
  shows "sortedInv lt (initStore array pairs larger y) (initChain larger) groups"
proof -
  let ?h = "initStore array pairs larger y"
  have val: "lt v l" "v \<in> A" if "map_of pairs l = Some v" for l v
  proof -
    from that have m: "(l, v) \<in> set pairs" by (rule map_of_SomeD)
    with po show "lt v l" by blast
    from m have "v \<in> set (map snd pairs)" by force
    with sub(1) show "v \<in> A" by blast
  qed
  have l0: "larger ! 0 \<in> A" using ne sub(2) by (metis length_greater_0_conv nth_mem subsetD)
  have yl: "lt y (larger ! 0)" and yA: "y \<in> A" using val[OF y] by simp_all
  have "\<forall>z\<in>set larger. lt y z"
  proof
    fix z assume z: "z \<in> set larger"
    then have zA: "z \<in> A" using sub(2) by blast
    from ne have "larger = larger ! 0 # drop (Suc 0) larger"
      by (cases larger) simp_all
    with z have "z = larger ! 0 \<or> z \<in> set (drop (Suc 0) larger)"
      by (metis set_ConsD)
    then show "lt y z"
    proof
      assume "z = larger ! 0"
      with yl show ?thesis by simp
    next
      assume "z \<in> set (drop (Suc 0) larger)"
      then have "lt (larger ! 0) z"
        using sorted_wrt_nth_split[OF so, of 0] ne by simp
      with strictTotalOrderOn_trans[OF ord yl _ yA l0 zA] show ?thesis by blast
    qed
  qed
  with so have "sorted_wrt lt (y # larger)" by simp
  then have 1: "sorted_wrt lt (items ?h (initChain larger))"
    by (simp only: items_initChain[OF ne])
  have 2: "\<forall>p\<in>set groups. \<forall>v. smaller (?h ! p) = Some v \<longrightarrow> lt v (item (?h ! p))"
  proof (intro ballI allI impI)
    fix p v assume p: "p \<in> set groups" and sm: "smaller (?h ! p) = Some v"
    from p sg have "p \<in> set (initToInsert array larger)" by blast
    then consider "1 \<le> p" "p < length larger" | "length array mod 2 = 1" "p = Suc (length larger)"
      by (auto simp: initToInsert_def split: if_splits)
    then show "lt v (item (?h ! p))"
    proof cases
      case 1
      with sm have "map_of pairs (larger ! p) = Some v" by (simp add: initStore_nth)
      from val(1)[OF this] 1 show ?thesis by (simp add: initStore_nth)
    next
      case 2
      with sm show ?thesis by (simp add: initStore_leftover)
    qed
  qed
  from 1 2 show ?thesis by (simp add: sortedInv_def)
qed

lemma insertSmaller_sorted:
  assumes da: "distinct array"
    and msp: "mset (map fst pairs) + mset (map snd pairs)
                = mset (take (2 * (length array div 2)) array)"
    and ml: "mset larger = mset (map fst pairs)"
    and ne: "larger \<noteq> []"
    and so: "sorted_wrt lt larger"
    and po: "\<forall>(l, y)\<in>set pairs. lt y l"
    and ord: "strictTotalOrderOn (set array) lt" and der: "derivedFrom cmp lt (set array)"
  shows "\<exists>ys s'. insertSmaller cmp array pairs larger s = (Inr ys, s') \<and>
           sorted_wrt lt ys \<and> mset ys = mset array"
proof -
  let ?groups = "map snd (makeGroups (initToInsert array larger))"
  have mg: "mset ?groups = mset (initToInsert array larger)" by (rule mset_makeGroups)
  from init_chainInv[OF da msp ml ne mg] obtain y where
    Y: "map_of pairs (larger ! 0) = Some y \<and>
        chainInv (initStore array pairs larger y) (initChain larger) ?groups \<and>
        mset (items (initStore array pairs larger y) (initChain larger))
          + mset (map (pendingItem (initStore array pairs larger y)) ?groups) = mset array" ..
  let ?h = "initStore array pairs larger y"
  from Y have y: "map_of pairs (larger ! 0) = Some y" by (rule conjunct1)
  from Y have inv: "chainInv ?h (initChain larger) ?groups" by (elim conjE)
  from Y have total: "mset (items ?h (initChain larger))
      + mset (map (pendingItem ?h) ?groups) = mset array" by (elim conjE)
  have "set_mset (mset (map fst pairs) + mset (map snd pairs)) \<subseteq> set array"
    unfolding msp by (auto dest: in_set_takeD)
  then have sub1: "set (map fst pairs) \<union> set (map snd pairs) \<subseteq> set array"
    by simp
  have "set larger = set (map fst pairs)" using ml by (rule mset_eq_setD)
  with sub1 have sub2: "set larger \<subseteq> set array" by blast
  have sg: "set ?groups \<subseteq> set (initToInsert array larger)"
    using mg by (metis mset_eq_setD order_refl)
  have sinv: "sortedInv lt ?h (initChain larger) ?groups"
    using so ne y po ord sub1 sub2 sg by (rule init_sortedInv)
  have "set_mset (mset (items ?h (initChain larger)) + mset (map (pendingItem ?h) ?groups))
          = set array"
    unfolding total by simp
  then have sub: "set (items ?h (initChain larger)) \<union> set (map (pendingItem ?h) ?groups)
      \<subseteq> set array" by simp
  from insertLoop_sorted[OF inv sinv sub ord der, of s]
  obtain h' chain' s' where loop: "insertLoop cmp ?groups ?h (initChain larger) s = (Inr (h', chain'), s')"
    and sorted: "sorted_wrt lt (items h' chain')" by blast
  from insertLoop_outcome[OF inv loop] total
  have ms: "mset (items h' chain') = mset array" by simp
  have "insertSmaller cmp array pairs larger s = (Inr (items h' chain'), s')"
    unfolding insertSmaller_unfold[OF ne y] loop by simp
  with sorted ms show ?thesis by blast
qed

lemma mergeInsertionSort_sorted:
  assumes "distinct array"
    and "strictTotalOrderOn (set array) lt" and "derivedFrom cmp lt (set array)"
  shows "\<exists>ys s'. mergeInsertionSort cmp array s = (Inr ys, s') \<and>
           sorted_wrt lt ys \<and> mset ys = mset array"
  using assms
proof (induction cmp array s rule: mergeInsertionSort.induct)
  case (1 cmp array s)
  note da = "1.prems"(1) and ord = "1.prems"(2) and der = "1.prems"(3)
  from da have card: "length array = card (set array)" by (simp add: distinct_card)
  consider "length array < 1" | "length array = 1" | "length array = 2" | "3 \<le> length array"
    by linarith
  then show ?case
  proof cases
    case 1
    then show ?thesis by (simp add: mergeInsertionSort.simps)
  next
    case 2
    then obtain a where "array = [a]" by (cases array) simp_all
    then show ?thesis by (simp add: mergeInsertionSort.simps)
  next
    case 3
    then obtain a b where ab: "array = [a, b]"
      by (cases array rule: list.exhaust[case_product list.exhaust]) (auto simp: length_Suc_conv)
    with da have ne: "a \<noteq> b" by simp
    from derivedFrom_call[OF der _ _ ne, of s] ab
    obtain s1 where c: "cmp (a, b) s = (Some (lt a b), s1)" by auto
    have "\<not> lt a b \<Longrightarrow> lt b a"
      using strictTotalOrderOn_total[OF ord _ _ ne] ab by simp
    with c ne show ?thesis unfolding ab
      by (auto simp: mergeInsertionSort.simps[of cmp "[a, b]"])
  next
    case 4
    then have c: "\<not> length array < 1" "length array \<noteq> 1" "length array \<noteq> 2" by auto
    from mkPairs_ordered[OF da _ _ ord der, of 0 "[]" s]
    obtain pairs s1 where mk: "mkPairs cmp array 0 [] s = (Inr pairs, s1)"
      and po: "\<forall>(l, y)\<in>set pairs. lt y l" by auto
    from mkPairs_outcome[OF da _ _ mk]
    have len: "length pairs = length array div 2"
      and msp: "mset (map fst pairs) + mset (map snd pairs)
              = mset (take (2 * (length array div 2)) array)" by simp_all
    have "distinct (take (2 * (length array div 2)) array)" using da by (rule distinct_take)
    then have "distinct (map fst pairs @ map snd pairs)"
      using msp by (metis mset_append mset_eq_imp_distinct_iff)
    then have dk: "distinct (map fst pairs)" by simp
    have "set_mset (mset (map fst pairs) + mset (map snd pairs)) \<subseteq> set array"
      unfolding msp by (auto dest: in_set_takeD)
    then have sub: "set (map fst pairs) \<subseteq> set array" by simp
    from "1.IH"[OF c(1) c(2) _ c(3) mk[symmetric] refl dk
        strictTotalOrderOn_subset[OF ord sub] derivedFrom_subset[OF der sub]] card
    obtain larger s2 where rec: "mergeInsertionSort cmp (map fst pairs) s1 = (Inr larger, s2)"
      and so: "sorted_wrt lt larger" and ml: "mset larger = mset (map fst pairs)"
      by auto
    from ml have "length larger = length pairs"
      by (metis length_map mset_eq_length)
    with len 4 have ne: "larger \<noteq> []" by auto
    from insertSmaller_sorted[OF da msp ml ne so po ord der, of s2]
    obtain ys s' where "insertSmaller cmp array pairs larger s2 = (Inr ys, s')"
      and "sorted_wrt lt ys" and "mset ys = mset array" by blast
    with c card mk rec show ?thesis
      by (simp add: mergeInsertionSort.simps[of cmp array])
  qed
qed

text \<open>
  The later \<open>mergeInsertionSort\<close> sorts. For an input of pairwise different items and a
  comparator derived from a strict total order on those items it returns (it does not fail)
  a sequence with exactly the items of the input, in ascending order under that order.
\<close>

theorem mergeInsertionSort_sorts:
  assumes "distinct array"
    and "strictTotalOrderOn (set array) lt" and "derivedFrom cmp lt (set array)"
  shows "\<exists>ys s'. mergeInsertionSort cmp array s = (Inr ys, s') \<and>
           sorted_wrt lt ys \<and> mset ys = mset array"
  using assms by (rule mergeInsertionSort_sorted)

theorem mergeInsertionSort_sorts_witness:
  "distinct [4, 5, 1, 3, 6, 2, 7 :: nat] \<and>
   strictTotalOrderOn (set [4, 5, 1, 3, 6, 2, 7 :: nat]) (<) \<and>
   derivedFrom (orderComparator (<) :: (nat, unit) Comparator) (<) (set [4, 5, 1, 3, 6, 2, 7]) \<and>
   (\<exists>ys s'. mergeInsertionSort (orderComparator (<)) [4, 5, 1, 3, 6, 2, 7 :: nat] () = (Inr ys, s') \<and>
      sorted_wrt (<) ys \<and> mset ys = mset [4, 5, 1, 3, 6, 2, 7]) \<and>
   mergeInsertionSort (orderComparator (<)) [4, 5, 1, 3, 6, 2, 7 :: nat] ()
     = (Inr [1, 2, 3, 4, 5, 6, 7], ())"
proof -
  have a: "distinct [4, 5, 1, 3, 6, 2, 7 :: nat]" by simp
  have b: "strictTotalOrderOn (set [4, 5, 1, 3, 6, 2, 7 :: nat]) (<)"
    by (rule strictTotalOrderOn_less)
  have c: "derivedFrom (orderComparator (<) :: (nat, unit) Comparator) (<)
             (set [4, 5, 1, 3, 6, 2, 7])"
    by (rule derivedFrom_orderComparator)
  have d: "mergeInsertionSort (orderComparator (<)) [4, 5, 1, 3, 6, 2, 7 :: nat] ()
             = (Inr [1, 2, 3, 4, 5, 6, 7], ())" by code_simp
  from mergeInsertionSort_sorts[OF a b c, of "()"] a b c d show ?thesis by blast
qed

section \<open>The comparator calls of a run\<close>

text \<open>The number of binary digits of \<open>n\<close>: the least \<open>c\<close> with \<open>n < 2 ^ c\<close>.\<close>

fun bits :: "nat \<Rightarrow> nat" where
  "bits n = (if n = 0 then 0 else Suc (bits (n div 2)))"

declare bits.simps [simp del]

lemma bits_0 [simp]: "bits 0 = 0"
  by (simp add: bits.simps)

lemma bits_pos: "0 < n \<Longrightarrow> bits n = Suc (bits (n div 2))"
  by (simp add: bits.simps)

lemma bits_le: "n < 2 ^ k \<Longrightarrow> bits n \<le> k"
proof (induction k arbitrary: n)
  case 0
  then show ?case by simp
next
  case (Suc k)
  show ?case
  proof (cases "n = 0")
    case True
    then show ?thesis by simp
  next
    case False
    from Suc.prems have "n div 2 < 2 ^ k" by simp
    from Suc.IH[OF this] False show ?thesis by (simp add: bits_pos)
  qed
qed

lemma bits_mono: "m \<le> n \<Longrightarrow> bits m \<le> bits n"
proof (induction n arbitrary: m rule: bits.induct)
  case (1 n)
  show ?case
  proof (cases "m = 0")
    case True
    then show ?thesis by simp
  next
    case False
    with "1.prems" have n: "n \<noteq> 0" by simp
    from "1.prems" have "m div 2 \<le> n div 2" by (rule div_le_mono)
    from "1.IH"[OF n this] False n show ?thesis by (simp add: bits_pos)
  qed
qed

lemma traced_call:
  "traced cmp ab st = (c, st') \<Longrightarrow> snd st' = snd st @ [ab]"
  by (auto simp: traced_def split: prod.splits)

lemma binSearch_trace:
  assumes "0 \<le> l" and "l \<le> r + 1" and "r < int (length array)"
    and "binSearch (traced cmp) array x l r st = (res, st')"
  shows "\<exists>new. snd st' = snd st @ new \<and> set new \<subseteq> {x} \<times> set array \<and>
           length new \<le> bits (nat (r - l + 1))"
  using assms
proof (induction "traced cmp" array x l r st rule: binSearch.induct)
  case (1 array x l r st)
  note l0 = "1.prems"(1) and lr = "1.prems"(2) and rlen = "1.prems"(3) and run = "1.prems"(4)
  show ?case
  proof (cases "l \<le> r")
    case False
    with run show ?thesis
      by (simp add: binSearch.simps[of _ array x l r])
  next
    case True
    define m where "m = l + (r - l) div 2"
    have mb: "l \<le> m" "m \<le> r" using True by (simp_all add: m_def)
    with l0 rlen have mlen: "nat m < length array" by simp
    obtain c st1 where c: "traced cmp (x, array ! nat m) st = (c, st1)"
      by (cases "traced cmp (x, array ! nat m) st")
    from traced_call[OF c] have t1: "snd st1 = snd st @ [(x, array ! nat m)]" .
    have pos: "0 < nat (r - l + 1)" using True by simp
    have half: "nat (m - 1 - l + 1) \<le> nat (r - l + 1) div 2"
      "nat (r - (m + 1) + 1) \<le> nat (r - l + 1) div 2"
      using True unfolding m_def by (simp_all add: nat_le_iff nat_div_distrib)
    show ?thesis
    proof (cases c)
      case None
      with True c run have "st' = st1"
        by (simp add: binSearch.simps[of _ array x l r] m_def[symmetric])
      with t1 mlen pos show ?thesis by (simp add: bits_pos)
    next
      case (Some b)
      show ?thesis
      proof (cases b)
        case True
        from \<open>l \<le> r\<close> c Some True run
        have "binSearch (traced cmp) array x l (m - 1) st1 = (res, st')"
          by (simp add: binSearch.simps[of _ array x l r] m_def[symmetric])
        from "1.hyps"(1)[OF \<open>l \<le> r\<close> m_def c[symmetric] Some True l0 _ _ this] mb rlen
        obtain new where "snd st' = snd st1 @ new" "set new \<subseteq> {x} \<times> set array"
          "length new \<le> bits (nat (m - 1 - l + 1))" by auto
        moreover have "bits (nat (m - 1 - l + 1)) \<le> bits (nat (r - l + 1) div 2)"
          using half(1) by (rule bits_mono)
        ultimately show ?thesis using t1 mlen pos
          by (intro exI[of _ "(x, array ! nat m) # new"]) (simp add: bits_pos)
      next
        case False
        from \<open>l \<le> r\<close> c Some False run
        have "binSearch (traced cmp) array x (m + 1) r st1 = (res, st')"
          by (simp add: binSearch.simps[of _ array x l r] m_def[symmetric])
        from "1.hyps"(2)[OF \<open>l \<le> r\<close> m_def c[symmetric] Some False _ _ rlen this] mb l0
        obtain new where "snd st' = snd st1 @ new" "set new \<subseteq> {x} \<times> set array"
          "length new \<le> bits (nat (r - (m + 1) + 1))" by auto
        moreover have "bits (nat (r - (m + 1) + 1)) \<le> bits (nat (r - l + 1) div 2)"
          using half(2) by (rule bits_mono)
        ultimately show ?thesis using t1 mlen pos
          by (intro exI[of _ "(x, array ! nat m) # new"]) (simp add: bits_pos)
      qed
    qed
  qed
qed

lemma binInsertIdx_trace:
  assumes "binInsertIdx array x (traced cmp) st = (res, st')"
  shows "\<exists>new. snd st' = snd st @ new \<and> set new \<subseteq> {x} \<times> set array \<and>
           length new \<le> bits (length array)"
proof -
  consider "length array < 1" | "length array \<ge> 1" "x \<in> set array"
    | "length array = 1" "x \<notin> set array" | "1 < length array" "x \<notin> set array"
    by linarith
  then show ?thesis
  proof cases
    case 1
    with assms show ?thesis by (simp add: binInsertIdx_def)
  next
    case 2
    then have "array \<noteq> []" by auto
    with assms 2 have "st' = st" by (simp add: binInsertIdx_def)
    then show ?thesis by simp
  next
    case 3
    then obtain y where arr: "array = [y]" by (cases array) simp_all
    obtain c st1 where c: "traced cmp (x, y) st = (c, st1)"
      by (cases "traced cmp (x, y) st")
    from assms 3 arr c have "st' = st1"
      by (auto simp: binInsertIdx_def split: option.splits)
    with traced_call[OF c] arr show ?thesis
      by (intro exI[of _ "[(x, y)]"]) (simp add: bits_pos)
  next
    case 4
    then have "\<not> length array < 1" "length array \<noteq> 1" by auto
    with assms 4 have "binSearch (traced cmp) array x 0 (int (length array) - 1) st = (res, st')"
      by (simp add: binInsertIdx_def)
    from binSearch_trace[OF _ _ _ this] show ?thesis by simp
  qed
qed

text \<open>Every logged call compares two different items of \<open>A\<close>.\<close>

definition callsWithin :: "'a set \<Rightarrow> ('a \<times> 'a) list \<Rightarrow> bool" where
  "callsWithin A calls \<longleftrightarrow> (\<forall>(a, b)\<in>set calls. a \<noteq> b \<and> a \<in> A \<and> b \<in> A)"

lemma callsWithin_Nil [simp]: "callsWithin A []"
  by (simp add: callsWithin_def)

lemma callsWithin_append [simp]:
  "callsWithin A (xs @ ys) \<longleftrightarrow> callsWithin A xs \<and> callsWithin A ys"
  by (auto simp: callsWithin_def)

lemma callsWithin_mono: "callsWithin A calls \<Longrightarrow> A \<subseteq> B \<Longrightarrow> callsWithin B calls"
  by (fastforce simp: callsWithin_def)

lemma mkPairs_trace:
  assumes "distinct array" and "mkPairs (traced cmp) array i pairs st = (res, st')"
  shows "\<exists>new. snd st' = snd st @ new \<and> callsWithin (set array) new \<and>
           length new \<le> (length array - i) div 2"
  using assms
proof (induction "traced cmp" array i pairs st rule: mkPairs.induct)
  case (1 array i pairs st)
  note da = "1.prems"(1) and run = "1.prems"(2)
  show ?case
  proof (cases "i + 1 < length array")
    case False
    with run show ?thesis by (simp add: mkPairs.simps[of _ array i])
  next
    case True
    let ?a = "array ! i" and ?b = "array ! (i + 1)"
    have mem: "?a \<in> set array" "?b \<in> set array" using True by simp_all
    have ab: "?a \<noteq> ?b" using da True by (simp add: nth_eq_iff_index_eq)
    obtain c st1 where c: "traced cmp (?a, ?b) st = (c, st1)"
      by (cases "traced cmp (?a, ?b) st")
    from traced_call[OF c] have t1: "snd st1 = snd st @ [(?a, ?b)]" .
    have cnt: "(length array - (i + 2)) div 2 + 1 = (length array - i) div 2"
      using True by presburger
    show ?thesis
    proof (cases c)
      case None
      with True c run have "st' = st1" by (simp add: mkPairs.simps[of _ array i])
      with t1 mem ab cnt show ?thesis
        by (intro exI[of _ "[(?a, ?b)]"]) (simp add: callsWithin_def)
    next
      case (Some b)
      let ?ps = "if b then Map_set pairs ?b ?a else Map_set pairs ?a ?b"
      from True c Some run have "mkPairs (traced cmp) array (i + 2) ?ps st1 = (res, st')"
        by (simp add: mkPairs.simps[of _ array i])
      from "1.hyps"[OF True c[symmetric] Some da this]
      obtain new where "snd st' = snd st1 @ new" "callsWithin (set array) new"
        "length new \<le> (length array - (i + 2)) div 2" by blast
      with t1 mem ab cnt show ?thesis
        by (intro exI[of _ "(?a, ?b) # new"]) (simp add: callsWithin_def)
    qed
  qed
qed

lemma insertPair_trace:
  assumes inv: "chainInv h chain (p # groups)"
    and run: "insertPair (traced cmp) p h chain st = (res, st')"
  shows "\<exists>new. snd st' = snd st @ new \<and>
           set new \<subseteq> {pendingItem h p} \<times> set (items h chain) \<and>
           length new \<le> bits (searchLen h chain p)"
proof -
  let ?x = "pendingItem h p"
  from searchArgs_chainInv[OF inv] obtain j where
    J: "j \<le> length chain \<and> searchArgs h chain p = (take j (items h chain), ?x) \<and>
        ?x \<notin> set (take j (items h chain)) \<and>
        (smaller (h ! p) = None \<longrightarrow> j = length chain) \<and>
        (smaller (h ! p) \<noteq> None \<longrightarrow> j < length chain \<and> chain ! j = p)" ..
  from J have sa: "searchArgs h chain p = (take j (items h chain), ?x)" by (elim conjE)
  obtain r st1 where b: "binInsertIdx (take j (items h chain)) ?x (traced cmp) st = (r, st1)"
    by (cases "binInsertIdx (take j (items h chain)) ?x (traced cmp) st")
  from run sa b have "st' = st1"
    by (auto simp: insertPair_def Let_def split: sum.splits)
  with binInsertIdx_trace[OF b] obtain new where "snd st' = snd st @ new"
    and "set new \<subseteq> {?x} \<times> set (take j (items h chain))"
    and "length new \<le> bits (length (take j (items h chain)))" by blast
  moreover have "set (take j (items h chain)) \<subseteq> set (items h chain)"
    by (rule set_take_subset)
  moreover have "searchLen h chain p = length (take j (items h chain))"
    by (simp add: searchLen_def sa)
  ultimately show ?thesis by (intro exI[of _ new]) auto
qed

lemma findIndex_nth:
  "distinct xs \<Longrightarrow> j < length xs \<Longrightarrow> findIndex (\<lambda>v. v = xs ! j) xs = int j"
proof (induction xs arbitrary: j)
  case Nil
  then show ?case by simp
next
  case (Cons x xs)
  show ?case
  proof (cases j)
    case 0
    then show ?thesis by simp
  next
    case (Suc k)
    with Cons.prems have k: "k < length xs" and "x \<noteq> xs ! k" by auto
    with Cons.IH[OF _ k] Cons.prems(1) Suc show ?thesis by (auto simp: Let_def)
  qed
qed

lemma searchLen_member:
  assumes "distinct chain" and "j < length chain" and "smaller (h ! (chain ! j)) \<noteq> None"
  shows "searchLen h chain (chain ! j) = j"
  using assms findIndex_nth[OF assms(1,2)]
  by (auto simp: searchLen_def searchArgs_def Let_def slice_prefix)

lemma searchLen_leftover:
  assumes "smaller (h ! p) = None"
  shows "searchLen h chain p = length chain"
  using assms by (simp add: searchLen_def searchArgs_def)

lemma nth_splice_at:
  assumes "j < length xs"
  shows "splice_at xs idx x ! (if j < idx then j else Suc j) = xs ! j"
proof (cases "j < idx")
  case True
  with assms show ?thesis by (simp add: splice_at_def nth_append)
next
  case False
  then have "idx \<le> j" by simp
  with assms have "length (take idx xs) = idx" by simp
  with False assms \<open>idx \<le> j\<close> show ?thesis
    by (simp add: splice_at_def nth_append Suc_diff_le)
qed

lemma length_splice_at [simp]: "length (splice_at xs idx x) = Suc (length xs)"
  by (simp add: splice_at_def)

lemma searchLen_inserted:
  assumes inv: "chainInv h chain (p # groups)" and q: "q \<in> set groups"
  shows "searchLen (fst (inserted h chain p idx)) (snd (inserted h chain p idx)) q
           \<le> Suc (searchLen h chain q)"
proof -
  let ?h = "fst (inserted h chain p idx)" and ?c = "snd (inserted h chain p idx)"
  from inv q have ql: "q < length h" and qp: "q \<noteq> p"
    and mem: "(smaller (h ! q) = None) = (q \<notin> set chain)" and dc: "distinct chain"
    by (auto simp: chainInv_def)
  have sm: "smaller (?h ! q) = smaller (h ! q)"
    using ql qp by (simp add: inserted_def store_after_insert)
  have c: "?c = splice_at chain idx (length h)" by (simp add: inserted_def)
  show ?thesis
  proof (cases "smaller (h ! q)")
    case None
    with sm show ?thesis by (simp add: searchLen_leftover c)
  next
    case (Some y)
    with mem have "q \<in> set chain" by simp
    then obtain j where j: "j < length chain" "chain ! j = q" by (auto simp: in_set_conv_nth)
    let ?j = "if j < idx then j else Suc j"
    from chainInv_inserted(1)[OF inv, of idx] have dc': "distinct ?c" by (simp add: chainInv_def)
    have nth: "?c ! ?j = q" unfolding c using nth_splice_at[OF j(1)] j(2) by simp
    have jl: "?j < length ?c" using j(1) by (simp add: c)
    have "smaller (?h ! (?c ! ?j)) \<noteq> None" using sm Some by (simp only: nth) simp
    with dc' jl have "searchLen ?h ?c (?c ! ?j) = ?j" by (rule searchLen_member)
    then have a: "searchLen ?h ?c q = ?j" by (simp only: nth)
    have "smaller (h ! (chain ! j)) \<noteq> None" using Some by (simp only: j(2)) simp
    with dc j(1) have "searchLen h chain (chain ! j) = j" by (rule searchLen_member)
    then have b: "searchLen h chain q = j" by (simp only: j(2))
    show ?thesis unfolding a b by simp
  qed
qed

text \<open>The bound on the calls of the insertion loop: the \<open>i\<close>-th insertion searches at most
  \<open>b + i\<close> items, where \<open>b\<close> bounds what it would have searched before the first insertion.\<close>

fun loopCost :: "nat list \<Rightarrow> nat \<Rightarrow> nat" where
  "loopCost [] t = 0"
| "loopCost (b # bs) t = bits (b + t) + loopCost bs (Suc t)"

lemma insertLoop_trace:
  assumes "chainInv h chain groups"
    and "\<forall>p\<in>set groups. searchLen h chain p \<le> f p + t"
    and "insertLoop (traced cmp) groups h chain st = (res, st')"
  shows "\<exists>new. snd st' = snd st @ new \<and>
           callsWithin (set (items h chain) \<union> set (map (pendingItem h) groups)) new \<and>
           length new \<le> loopCost (map f groups) t"
  using assms
proof (induction groups arbitrary: h chain st t)
  case Nil
  then show ?case by simp
next
  case (Cons p groups)
  note inv = Cons.prems(1) and pos = Cons.prems(2) and run = Cons.prems(3)
  let ?U = "set (items h chain) \<union> set (map (pendingItem h) (p # groups))"
  obtain r st1 where step: "insertPair (traced cmp) p h chain st = (r, st1)"
    by (cases "insertPair (traced cmp) p h chain st")
  from insertPair_trace[OF inv step] obtain new1 where
    t1: "snd st1 = snd st @ new1"
    and s1: "set new1 \<subseteq> {pendingItem h p} \<times> set (items h chain)"
    and l1: "length new1 \<le> bits (searchLen h chain p)" by blast
  from inv have "pendingItem h p \<notin> set (items h chain)" by (simp add: chainInv_def)
  with s1 have c1: "callsWithin ?U new1" by (fastforce simp: callsWithin_def)
  from pos have "searchLen h chain p \<le> f p + t" by simp
  then have "bits (searchLen h chain p) \<le> bits (f p + t)" by (rule bits_mono)
  with l1 have l1': "length new1 \<le> bits (f p + t)" by simp
  from insertPair_outcome[OF inv step]
  show ?case
  proof
    assume "r = Inl ComparatorFailure"
    with run step have "st' = st1" by simp
    with t1 c1 l1' show ?thesis by (intro exI[of _ new1]) simp
  next
    assume "\<exists>idx. idx \<le> searchLen h chain p \<and> r = Inr (inserted h chain p idx)"
    then obtain idx where r: "r = Inr (inserted h chain p idx)" by blast
    obtain h1 chain1 where ins: "inserted h chain p idx = (h1, chain1)"
      by (cases "inserted h chain p idx")
    from chainInv_inserted[OF inv, of idx] ins
    have inv1: "chainInv h1 chain1 groups"
      and it: "items h1 chain1 = splice_at (items h chain) idx (pendingItem h p)"
      and pe: "map (pendingItem h1) groups = map (pendingItem h) groups" by simp_all
    have pos1: "\<forall>q\<in>set groups. searchLen h1 chain1 q \<le> f q + Suc t"
    proof
      fix q assume q: "q \<in> set groups"
      from searchLen_inserted[OF inv q, of idx] ins
      have "searchLen h1 chain1 q \<le> Suc (searchLen h chain q)" by simp
      moreover from pos q have "searchLen h chain q \<le> f q + t" by simp
      ultimately show "searchLen h1 chain1 q \<le> f q + Suc t" by simp
    qed
    from run step r ins have "insertLoop (traced cmp) groups h1 chain1 st1 = (res, st')"
      by simp
    from Cons.IH[OF inv1 pos1 this] obtain new2 where
      t2: "snd st' = snd st1 @ new2"
      and c2: "callsWithin (set (items h1 chain1) \<union> set (map (pendingItem h1) groups)) new2"
      and l2: "length new2 \<le> loopCost (map f groups) (Suc t)" by blast
    have "set (items h1 chain1) \<union> set (map (pendingItem h1) groups) = ?U"
      unfolding it pe by (auto simp: set_splice)
    with c2 have c2': "callsWithin ?U new2" by simp
    from t1 t2 c1 c2' l1' l2 show ?thesis
      by (intro exI[of _ "new1 @ new2"]) simp
  qed
qed

text \<open>
  The bound on the calls of one run on \<open>n\<close> items that the code structure gives: one call
  per pair, the calls of the recursive run on the larger items, and the calls of the
  insertion loop, whose \<open>m = \<lceil>n/2\<rceil> - 1\<close> items are taken in the order of \<open>_makeGroups\<close>; the
  item at index \<open>j\<close> of \<open>toInsert\<close> has \<open>j + 2\<close> chain items before its pair at the start.
\<close>

definition insertBound :: "nat \<Rightarrow> nat" where
  "insertBound m = loopCost (insertionOrder_spec [2..<2 + m]) 0"

fun fjBound :: "nat \<Rightarrow> nat" where
  "fjBound n =
     (if n < 2 then 0 else if n = 2 then 1
      else n div 2 + fjBound (n div 2) + insertBound ((n + 1) div 2 - 1))"

declare fjBound.simps [simp del]

lemma init_searchLen:
  assumes some: "\<forall>l\<in>set larger. map_of pairs l \<noteq> None" and ne: "larger \<noteq> []"
    and p: "p \<in> set (initToInsert array larger)"
  shows "searchLen (initStore array pairs larger y) (initChain larger) p
           = (if p < length larger then p + 1 else length larger + 1)"
proof -
  let ?h = "initStore array pairs larger y" and ?k = "length larger"
  from p consider "1 \<le> p" "p < ?k" | "length array mod 2 = 1" "p = Suc ?k"
    by (auto simp: initToInsert_def split: if_splits)
  then show ?thesis
  proof cases
    case 1
    have d: "distinct (initChain larger)" by (simp add: initChain_def)
    have l: "Suc p < length (initChain larger)" using 1 by (simp add: initChain_def)
    have n: "initChain larger ! Suc p = p" using 1 by (simp add: initChain_def)
    from 1 some have "map_of pairs (larger ! p) \<noteq> None" by simp
    with 1 have "smaller (?h ! p) \<noteq> None" by (simp add: initStore_nth)
    then have "smaller (?h ! (initChain larger ! Suc p)) \<noteq> None" by (simp add: n)
    with d l have "searchLen ?h (initChain larger) (initChain larger ! Suc p) = Suc p"
      by (rule searchLen_member)
    with 1 show ?thesis by (simp only: n) simp
  next
    case 2
    then have "smaller (?h ! p) = None" by (simp add: initStore_leftover)
    then have "searchLen ?h (initChain larger) p = length (initChain larger)"
      by (rule searchLen_leftover)
    with 2 show ?thesis by (simp add: initChain_def)
  qed
qed

lemma init_positions:
  assumes "larger \<noteq> []"
  shows "map (\<lambda>p. if p < length larger then p + 1 else length larger + 1)
           (initToInsert array larger)
         = [2..<2 + length (initToInsert array larger)]"
proof -
  let ?k = "length larger"
  let ?f = "\<lambda>p. if p < ?k then p + 1 else ?k + 1"
  from assms have k: "0 < ?k" by simp
  have "map ?f [1..<?k] = map Suc [1..<?k]"
    by (rule map_cong) simp_all
  also have "\<dots> = [Suc 1..<Suc ?k]" by (rule map_Suc_upt)
  finally have a: "map ?f [1..<?k] = [2..<Suc ?k]" by (simp only: numeral_2_eq_2 One_nat_def)
  have l: "2 + length [1..<?k] = Suc ?k" using k by simp
  show ?thesis
  proof (cases "length array mod 2 = 1")
    case False
    then have "initToInsert array larger = [1..<?k]" by (simp add: initToInsert_def)
    then show ?thesis by (simp only: a l)
  next
    case True
    then have t: "initToInsert array larger = [1..<?k] @ [Suc ?k]" by (simp add: initToInsert_def)
    have "2 \<le> Suc ?k" using k by linarith
    then have "[2..<Suc (Suc ?k)] = [2..<Suc ?k] @ [Suc ?k]" by (rule upt_Suc_append)
    moreover have "2 + length ([1..<?k] @ [Suc ?k]) = Suc (Suc ?k)" using k by simp
    moreover have "map ?f ([1..<?k] @ [Suc ?k]) = map ?f [1..<?k] @ [Suc ?k]" by simp
    ultimately show ?thesis by (simp only: t a)
  qed
qed

lemma insertSmaller_trace:
  assumes da: "distinct array"
    and msp: "mset (map fst pairs) + mset (map snd pairs)
                = mset (take (2 * (length array div 2)) array)"
    and ml: "mset larger = mset (map fst pairs)"
    and ne: "larger \<noteq> []"
    and len: "length larger = length array div 2"
    and run: "insertSmaller (traced cmp) array pairs larger st = (res, st')"
  shows "\<exists>new. snd st' = snd st @ new \<and> callsWithin (set array) new \<and>
           length new \<le> insertBound ((length array + 1) div 2 - 1)"
proof -
  let ?toInsert = "initToInsert array larger"
  let ?groups = "map snd (makeGroups ?toInsert)"
  let ?f = "\<lambda>p. if p < length larger then p + 1 else length larger + 1"
  have mg: "mset ?groups = mset ?toInsert" by (rule mset_makeGroups)
  from init_chainInv[OF da msp ml ne mg] obtain y where
    Y: "map_of pairs (larger ! 0) = Some y \<and>
        chainInv (initStore array pairs larger y) (initChain larger) ?groups \<and>
        mset (items (initStore array pairs larger y) (initChain larger))
          + mset (map (pendingItem (initStore array pairs larger y)) ?groups) = mset array" ..
  let ?h = "initStore array pairs larger y"
  from Y have y: "map_of pairs (larger ! 0) = Some y" by (rule conjunct1)
  from Y have inv: "chainInv ?h (initChain larger) ?groups" by (elim conjE)
  from Y have total: "mset (items ?h (initChain larger))
      + mset (map (pendingItem ?h) ?groups) = mset array" by (elim conjE)
  have "distinct (take (2 * (length array div 2)) array)" using da by (rule distinct_take)
  then have "distinct (map fst pairs @ map snd pairs)"
    using msp by (metis mset_append mset_eq_imp_distinct_iff)
  then have dk: "distinct (map fst pairs)" by simp
  have "set larger = set (map fst pairs)" using ml by (rule mset_eq_setD)
  then have some: "\<forall>l\<in>set larger. map_of pairs l \<noteq> None"
    by (simp add: map_of_eq_None_iff)
  have sg: "set ?groups = set ?toInsert" using mg by (rule mset_eq_setD)
  have pos: "\<forall>p\<in>set ?groups. searchLen ?h (initChain larger) p \<le> ?f p + 0"
    unfolding sg using init_searchLen[OF some ne, of _ array y] by simp
  obtain r st1 where loop: "insertLoop (traced cmp) ?groups ?h (initChain larger) st = (r, st1)"
    by (cases "insertLoop (traced cmp) ?groups ?h (initChain larger) st")
  from run have "st' = st1"
    unfolding insertSmaller_unfold[OF ne y] loop by (auto split: sum.splits prod.splits)
  with insertLoop_trace[OF inv pos loop] obtain new where
    t: "snd st' = snd st @ new"
    and c: "callsWithin (set (items ?h (initChain larger)) \<union> set (map (pendingItem ?h) ?groups)) new"
    and l: "length new \<le> loopCost (map ?f ?groups) 0" by blast
  have "set_mset (mset (items ?h (initChain larger)) + mset (map (pendingItem ?h) ?groups))
          = set array"
    unfolding total by simp
  then have "set (items ?h (initChain larger)) \<union> set (map (pendingItem ?h) ?groups) = set array"
    by simp
  with c have c': "callsWithin (set array) new" by simp
  have "map ?f ?groups = insertionOrder_spec (map ?f ?toInsert)"
    by (simp only: makeGroups_items insertionOrder_spec_map)
  also have "\<dots> = insertionOrder_spec [2..<2 + length ?toInsert]"
    by (simp only: init_positions[OF ne])
  finally have "loopCost (map ?f ?groups) 0 = insertBound (length ?toInsert)"
    by (simp only: insertBound_def)
  moreover have "length ?toInsert = (length array + 1) div 2 - 1"
  proof -
    from ne have "0 < length larger" by simp
    with len have "0 < length array div 2" by simp
    moreover have "length ?toInsert
        = length array div 2 - 1 + (if length array mod 2 = 1 then 1 else 0)"
      by (simp add: initToInsert_def len)
    ultimately show ?thesis by presburger
  qed
  ultimately have "length new \<le> insertBound ((length array + 1) div 2 - 1)"
    using l by simp
  with t c' show ?thesis by blast
qed

lemma fjBound_step:
  "3 \<le> n \<Longrightarrow> fjBound n = n div 2 + fjBound (n div 2) + insertBound ((n + 1) div 2 - 1)"
  by (simp add: fjBound.simps[of n])

lemma mergeInsertionSort_trace:
  assumes "distinct array" and "mergeInsertionSort (traced cmp) array st = (res, st')"
  shows "\<exists>new. snd st' = snd st @ new \<and> callsWithin (set array) new \<and>
           length new \<le> fjBound (length array)"
  using assms
proof (induction "traced cmp" array st arbitrary: res st' rule: mergeInsertionSort.induct)
  case (1 array st)
  note da = "1.prems"(1) and run = "1.prems"(2)
  from da have card: "length array = card (set array)" by (simp add: distinct_card)
  consider "length array < 1" | "length array = 1" | "length array = 2" | "3 \<le> length array"
    by linarith
  then show ?case
  proof cases
    case 1
    with run show ?thesis by (simp add: mergeInsertionSort.simps)
  next
    case 2
    with run show ?thesis by (auto simp: mergeInsertionSort.simps)
  next
    case 3
    then obtain a b where ab: "array = [a, b]"
      by (cases array rule: list.exhaust[case_product list.exhaust]) (auto simp: length_Suc_conv)
    with da have ne: "a \<noteq> b" by simp
    obtain c st1 where c: "traced cmp (a, b) st = (c, st1)"
      by (cases "traced cmp (a, b) st")
    from run ne c have "st' = st1" unfolding ab
      by (auto simp: mergeInsertionSort.simps[of _ "[a, b]"] split: option.splits)
    with traced_call[OF c] ne show ?thesis unfolding ab
      by (intro exI[of _ "[(a, b)]"]) (simp add: callsWithin_def fjBound.simps)
  next
    case 4
    then have c: "\<not> length array < 1" "length array \<noteq> 1" "length array \<noteq> 2" by auto
    note fj = fjBound_step[OF 4]
    obtain r1 st1 where mk: "mkPairs (traced cmp) array 0 [] st = (r1, st1)"
      by (cases "mkPairs (traced cmp) array 0 [] st")
    from mkPairs_trace[OF da mk] obtain new1 where
      t1: "snd st1 = snd st @ new1" and c1: "callsWithin (set array) new1"
      and l1: "length new1 \<le> length array div 2" by auto
    from mkPairs_outcome[OF da _ _ mk]
    have "r1 = Inl ComparatorFailure \<or>
         (\<exists>pairs'. r1 = Inr pairs' \<and> length pairs' = length array div 2 \<and>
            mset (map fst pairs') + mset (map snd pairs')
              = mset (take (2 * (length array div 2)) array))" by simp
    then show ?thesis
    proof
      assume "r1 = Inl ComparatorFailure"
      with run c card mk have "st' = st1" by (simp add: mergeInsertionSort.simps[of _ array])
      with t1 c1 l1 fj show ?thesis by (intro exI[of _ new1]) simp
    next
      assume "\<exists>pairs'. r1 = Inr pairs' \<and> length pairs' = length array div 2 \<and>
            mset (map fst pairs') + mset (map snd pairs')
              = mset (take (2 * (length array div 2)) array)"
      then obtain pairs where r1: "r1 = Inr pairs" and len: "length pairs = length array div 2"
        and msp: "mset (map fst pairs) + mset (map snd pairs)
              = mset (take (2 * (length array div 2)) array)" by blast
      have "distinct (take (2 * (length array div 2)) array)" using da by (rule distinct_take)
      then have "distinct (map fst pairs @ map snd pairs)"
        using msp by (metis mset_append mset_eq_imp_distinct_iff)
      then have dk: "distinct (map fst pairs)" by simp
      have "set_mset (mset (map fst pairs) + mset (map snd pairs)) \<subseteq> set array"
        unfolding msp by (auto dest: in_set_takeD)
      then have sub: "set (map fst pairs) \<subseteq> set array" by simp
      obtain r2 st2 where rec: "mergeInsertionSort (traced cmp) (map fst pairs) st1 = (r2, st2)"
        by (cases "mergeInsertionSort (traced cmp) (map fst pairs) st1")
      from "1.hyps"[OF c(1) c(2) _ c(3) mk[symmetric, unfolded r1] refl dk rec] card
      obtain new2 where t2: "snd st2 = snd st1 @ new2"
        and c2: "callsWithin (set (map fst pairs)) new2"
        and l2: "length new2 \<le> fjBound (length array div 2)" using len by auto
      from c2 sub have c2': "callsWithin (set array) new2" by (rule callsWithin_mono)
      from mergeInsertionSort_outcome[OF dk rec]
      show ?thesis
      proof
        assume "r2 = Inl ComparatorFailure"
        with run c card mk r1 rec have "st' = st2"
          by (simp add: mergeInsertionSort.simps[of _ array])
        with t1 t2 c1 c2' l1 l2 fj show ?thesis
          by (intro exI[of _ "new1 @ new2"]) simp
      next
        assume "\<exists>ys. r2 = Inr ys \<and> mset ys = mset (map fst pairs)"
        then obtain larger where r2: "r2 = Inr larger" and ml: "mset larger = mset (map fst pairs)"
          by blast
        from ml have ll: "length larger = length pairs"
          by (metis length_map mset_eq_length)
        with len 4 have ne: "larger \<noteq> []" by auto
        from ll len have len': "length larger = length array div 2" by simp
        from run c card mk r1 rec r2
        have "insertSmaller (traced cmp) array pairs larger st2 = (res, st')"
          by (simp add: mergeInsertionSort.simps[of _ array])
        from insertSmaller_trace[OF da msp ml ne len' this] obtain new3 where
          "snd st' = snd st2 @ new3" "callsWithin (set array) new3"
          "length new3 \<le> insertBound ((length array + 1) div 2 - 1)" by blast
        with t1 t2 c1 c2' l1 l2 fj show ?thesis
          by (intro exI[of _ "new1 @ new2 @ new3"]) simp
      qed
    qed
  qed
qed

section \<open>The comparator is never called on equal items\<close>

text \<open>
  Claim C9. In a run of \<open>mergeInsertionSort\<close> on pairwise different items, whatever the
  comparator answers and whether the run succeeds or fails, every call of the comparator
  gets two different items of the input.
\<close>

theorem comparator_arguments_distinct:
  assumes "distinct array"
    and "mergeInsertionSort (traced cmp) array (s, []) = (res, (s', calls))"
  shows "\<forall>(a, b)\<in>set calls. a \<noteq> b \<and> a \<in> set array \<and> b \<in> set array"
proof -
  from mergeInsertionSort_trace[OF assms] have "callsWithin (set array) calls" by simp
  then show ?thesis by (simp add: callsWithin_def)
qed

theorem comparator_arguments_distinct_witness:
  "distinct [4, 5, 1, 3, 6 :: nat] \<and>
   mergeInsertionSort (traced (orderComparator (<))) [4, 5, 1, 3, 6 :: nat] ((), [])
     = (Inr [1, 3, 4, 5, 6], ((), [(4, 5), (1, 3), (5, 3), (6, 3), (6, 5), (4, 1), (4, 3)])) \<and>
   callsWithin (set [4, 5, 1, 3, 6 :: nat])
     [(4, 5), (1, 3), (5, 3), (6, 3), (6, 5), (4, 1), (4, 3)]"
proof -
  have d: "distinct [4, 5, 1, 3, 6 :: nat]" by simp
  have r: "mergeInsertionSort (traced (orderComparator (<))) [4, 5, 1, 3, 6 :: nat] ((), [])
     = (Inr [1, 3, 4, 5, 6], ((), [(4, 5), (1, 3), (5, 3), (6, 3), (6, 5), (4, 1), (4, 3)]))"
    by code_simp
  from comparator_arguments_distinct[OF d r]
  have "callsWithin (set [4, 5, 1, 3, 6 :: nat])
     [(4, 5), (1, 3), (5, 3), (6, 3), (6, 5), (4, 1), (4, 3)]"
    unfolding callsWithin_def .
  with d r show ?thesis by blast
qed

section \<open>The bound of the code structure against the formula\<close>

lemma bits_less: "n < 2 ^ bits n"
proof (induction n rule: bits.induct)
  case (1 n)
  show ?case
  proof (cases "n = 0")
    case True
    then show ?thesis by simp
  next
    case False
    with "1.IH" have "n div 2 < 2 ^ bits (n div 2)" by simp
    then have "n < 2 * 2 ^ bits (n div 2)" by linarith
    with False show ?thesis by (simp add: bits_pos)
  qed
qed

lemma bits_ge: "0 < n \<Longrightarrow> 2 ^ (bits n - 1) \<le> n"
proof (induction n rule: bits.induct)
  case (1 n)
  show ?case
  proof (cases "n div 2 = 0")
    case True
    with "1.prems" have "n = 1" by (simp add: div_eq_0_iff)
    then show ?thesis by (simp add: bits_pos)
  next
    case False
    with "1.IH" "1.prems" have "2 ^ (bits (n div 2) - 1) \<le> n div 2" by simp
    then have "2 * 2 ^ (bits (n div 2) - 1) \<le> n" by linarith
    moreover from False have "0 < bits (n div 2)" by (simp add: bits_pos)
    ultimately have "2 ^ bits (n div 2) \<le> n"
      by (metis Suc_pred' power_Suc)
    with "1.prems" show ?thesis by (simp add: bits_pos)
  qed
qed

lemma bits_eqI: "2 ^ c \<le> n \<Longrightarrow> n < 2 ^ Suc c \<Longrightarrow> bits n = Suc c"
proof -
  assume lo: "2 ^ c \<le> n" and hi: "n < 2 ^ Suc c"
  from hi have "bits n \<le> Suc c" by (rule bits_le)
  moreover have "\<not> bits n \<le> c"
  proof
    assume "bits n \<le> c"
    then have "(2::nat) ^ bits n \<le> 2 ^ c" by (simp add: power_increasing)
    with bits_less[of n] lo show False by linarith
  qed
  ultimately show ?thesis by linarith
qed

text \<open>\<open>\<lceil>log2 (3 i / 4)\<rceil>\<close> for \<open>i \<ge> 1\<close>, in integer arithmetic: the \<open>k\<close> with
  \<open>2 ^ (k + 1) < 3 i \<le> 2 ^ (k + 2)\<close>.\<close>

definition ceilLog34 :: "nat \<Rightarrow> nat" where
  "ceilLog34 i = bits (3 * i - 1) - 2"

lemma ceilLog34_eqI:
  assumes "2 ^ (k + 1) < 3 * i" and "3 * i \<le> 2 ^ (k + 2)"
  shows "ceilLog34 i = k"
proof -
  from assms have "2 ^ Suc k \<le> 3 * i - 1" "3 * i - 1 < 2 ^ Suc (Suc k)" by simp_all
  then have "bits (3 * i - 1) = Suc (Suc k)" by (rule bits_eqI)
  then show ?thesis by (simp add: ceilLog34_def)
qed

lemma ceilLog34_bounds:
  assumes "0 < i"
  shows "2 ^ (ceilLog34 i + 1) < 3 * i \<and> 3 * i \<le> 2 ^ (ceilLog34 i + 2)"
proof -
  let ?x = "3 * i - 1"
  from assms have x: "2 \<le> ?x" by simp
  have "\<not> bits ?x \<le> 1"
  proof
    assume "bits ?x \<le> 1"
    then have "(2::nat) ^ bits ?x \<le> 2 ^ 1" by (rule power_increasing) simp
    with bits_less[of ?x] x show False by simp
  qed
  then obtain c where c: "bits ?x = Suc (Suc c)"
    by (metis One_nat_def Suc_leI le0 not0_implies_Suc not_less_eq_eq)
  from bits_ge[of ?x] x c have "2 ^ Suc c \<le> ?x" by simp
  with assms have lo: "2 ^ Suc c < 3 * i" by linarith
  from bits_less[of ?x] c have "?x < 2 ^ Suc (Suc c)" by simp
  with assms have hi: "3 * i \<le> 2 ^ Suc (Suc c)" by linarith
  have "ceilLog34 i = c" unfolding ceilLog34_def c by simp
  with lo hi show ?thesis by simp
qed

lemma ceilLog34_1 [simp]: "ceilLog34 1 = 0"
  by (rule ceilLog34_eqI) simp_all

lemma ceilLog34_Suc0 [simp]: "ceilLog34 (Suc 0) = 0"
  using ceilLog34_1 by simp

lemma ceilLog34_0 [simp]: "ceilLog34 0 = 0"
  by (simp add: ceilLog34_def)

lemma ceilLog34_double: "0 < q \<Longrightarrow> ceilLog34 (2 * q) = Suc (ceilLog34 q)"
proof -
  assume "0 < q"
  from ceilLog34_bounds[OF this]
  have "2 ^ (ceilLog34 q + 1) < 3 * q" "3 * q \<le> 2 ^ (ceilLog34 q + 2)" by simp_all
  then have "2 ^ (Suc (ceilLog34 q) + 1) < 3 * (2 * q)" "3 * (2 * q) \<le> 2 ^ (Suc (ceilLog34 q) + 2)"
    by simp_all
  then show ?thesis by (rule ceilLog34_eqI)
qed

lemma maxComparisons_ceilLog34:
  assumes "0 < n"
  shows "mergeInsertionMaxComparisons (int n)
           = Inr (int n * int (ceilLog34 n) - 2 ^ (ceilLog34 n + 2) div 3 + (int (ceilLog34 n) + 2) div 2)"
proof -
  let ?k = "ceilLog34 n"
  from ceilLog34_bounds[OF assms] have "2 ^ (?k + 1) < 3 * n" "3 * n \<le> 2 ^ (?k + 2)"
    by simp_all
  then have "int (2 ^ (?k + 1)) < int (3 * n)" "int (3 * n) \<le> int (2 ^ (?k + 2))"
    by (simp_all only: of_nat_less_iff of_nat_le_iff)
  then have "2 ^ (?k + 1) < 3 * int n" "3 * int n \<le> 2 ^ (?k + 2)"
    by simp_all
  then show ?thesis by (rule maxComparisons_formula)
qed

text \<open>The sum \<open>\<Sum> i = 1..n. \<lceil>log2 (3 i / 4)\<rceil>\<close> that the source gives as the other form of
  the bound (the summand for \<open>i = 0\<close> is \<open>0\<close>).\<close>

definition comparisonSum :: "nat \<Rightarrow> nat" where
  "comparisonSum n = (\<Sum>i\<le>n. ceilLog34 i)"

lemma comparisonSum_Suc: "comparisonSum (Suc n) = comparisonSum n + ceilLog34 (Suc n)"
  by (simp add: comparisonSum_def)

lemma pow2_mod3: "(2::nat) ^ j mod 3 = (if even j then 1 else 2)"
proof (induction j)
  case 0
  show ?case by simp
next
  case (Suc j)
  have "(2::nat) ^ Suc j mod 3 = (2 * (2 ^ j mod 3)) mod 3"
    by (simp add: mod_mult_right_eq)
  with Suc show ?case by (cases "even j") simp_all
qed

lemma comparisonSum_closed:
  assumes "0 < n"
  shows "int (comparisonSum n)
           = int n * int (ceilLog34 n) - 2 ^ (ceilLog34 n + 2) div 3 + (int (ceilLog34 n) + 2) div 2"
  using assms
proof (induction n rule: nat_induct_non_zero)
  case 1
  show ?case by (simp add: comparisonSum_def)
next
  case (Suc n)
  let ?k = "ceilLog34 n"
  define P :: nat where "P = 2 ^ (?k + 2)"
  from ceilLog34_bounds[OF Suc.hyps]
  have lo: "2 ^ (?k + 1) < 3 * n" and hi: "3 * n \<le> P" by (simp_all add: P_def)
  have IH: "int (comparisonSum n) = int n * int ?k - int P div 3 + (int ?k + 2) div 2"
    using Suc.IH by (simp add: P_def)
  have Pmod: "P mod 3 = (if even ?k then 1 else 2)"
    unfolding P_def using pow2_mod3[of "?k + 2"] by simp
  show ?case
  proof (cases "3 * Suc n \<le> P")
    case True
    have "2 ^ (?k + 1) < 3 * Suc n" using lo by simp
    moreover have "3 * Suc n \<le> 2 ^ (?k + 2)" using True by (simp add: P_def)
    ultimately have k': "ceilLog34 (Suc n) = ?k" by (rule ceilLog34_eqI)
    have "int (comparisonSum (Suc n)) = int (comparisonSum n) + int ?k"
      by (simp add: comparisonSum_Suc k')
    also have "\<dots> = int (Suc n) * int ?k - int P div 3 + (int ?k + 2) div 2"
      unfolding IH by (simp add: algebra_simps)
    finally show ?thesis unfolding k' by (simp add: P_def)
  next
    case False
    have "2 ^ (Suc ?k + 1) < 3 * Suc n" using False by (simp add: P_def)
    moreover have "3 * Suc n \<le> 2 ^ (Suc ?k + 2)"
    proof -
      have "P \<noteq> 3 * n" using Pmod by (auto split: if_splits)
      moreover have "3 * Suc n = 3 * n + 3" by simp
      ultimately have "3 * Suc n \<le> 2 * P" using hi Suc.hyps by linarith
      then show ?thesis by (simp add: P_def)
    qed
    ultimately have k': "ceilLog34 (Suc n) = Suc ?k" by (rule ceilLog34_eqI)
    have P2: "(2::int) ^ (Suc ?k + 2) = 2 * int P" by (simp add: P_def)
    have Pn: "P = 3 * n + P mod 3" "P mod 3 < 3"
      using hi False by (simp_all add: div_mult_mod_eq) presburger
    have Pnat: "P = 3 * n + (if even ?k then 1 else 2)" using Pn(1) Pmod by simp
    have Pval: "int P = 3 * int n + (if even ?k then 1 else 2)"
      by (subst Pnat) simp
    have d1: "int P div 3 = int n"
    proof (cases "even ?k")
      case True
      then have "int P = 3 * int n + 1" using Pval by simp
      then show ?thesis by presburger
    next
      case False
      then have "int P = 3 * int n + 2" using Pval by simp
      then show ?thesis by presburger
    qed
    have d2: "(2 * int P) div 3 = 2 * int n + (if even ?k then 0 else 1)"
    proof (cases "even ?k")
      case True
      then have "int P = 3 * int n + 1" using Pval by simp
      with True show ?thesis by simp
    next
      case False
      then have "int P = 3 * int n + 2" using Pval by simp
      with False show ?thesis by simp
    qed
    have d3: "(int (Suc ?k) + 2) div 2 = (int ?k + 2) div 2 + (if even ?k then 0 else 1)"
    proof (cases "even ?k")
      case True
      then obtain j where "?k = 2 * j" by (elim evenE)
      then show ?thesis by simp
    next
      case False
      then obtain j where "?k = 2 * j + 1" by (elim oddE)
      then show ?thesis by simp
    qed
    have "int (comparisonSum (Suc n)) = int (comparisonSum n) + int (Suc ?k)"
      by (simp add: comparisonSum_Suc k')
    also have "\<dots> = int (Suc n) * int (Suc ?k) - (2 * int P) div 3 + (int (Suc ?k) + 2) div 2"
      unfolding IH d1 d2 d3 by (simp add: algebra_simps)
    finally show ?thesis unfolding k' P2 .
  qed
qed

text \<open>The terms of the sum with an odd index \<open>3, 5, \<dots>\<close>: the cost of the insertions.\<close>

definition oddSum :: "nat \<Rightarrow> nat" where
  "oddSum m = (\<Sum>j<m. ceilLog34 (2 * j + 3))"

lemma comparisonSum_split:
  "comparisonSum n = n div 2 + comparisonSum (n div 2) + oddSum ((n + 1) div 2 - 1)"
proof (induction n)
  case 0
  show ?case by (simp add: comparisonSum_def oddSum_def)
next
  case (Suc n)
  show ?case
  proof (cases "even n")
    case True
    then obtain q where n: "n = 2 * q" by (elim evenE)
    show ?thesis
    proof (cases q)
      case 0
      with n show ?thesis by (simp add: comparisonSum_def oddSum_def)
    next
      case (Suc r)
      have a: "Suc n div 2 = q" "n div 2 = q" "(Suc n + 1) div 2 - 1 = Suc r"
        "(n + 1) div 2 - 1 = r" using n Suc by simp_all
      have "2 * r + 3 = Suc n" using n Suc by simp
      moreover have "oddSum (Suc r) = oddSum r + ceilLog34 (2 * r + 3)"
        by (simp add: oddSum_def)
      ultimately have "oddSum (Suc r) = oddSum r + ceilLog34 (Suc n)"
        by (simp only:)
      with Suc.IH show ?thesis unfolding a comparisonSum_Suc by simp
    qed
  next
    case False
    then obtain r where n: "n = 2 * r + 1" by (elim oddE)
    have a: "Suc n div 2 = Suc r" "n div 2 = r" "(Suc n + 1) div 2 - 1 = r"
      "(n + 1) div 2 - 1 = r" using n by simp_all
    have "Suc n = 2 * Suc r" using n by simp
    then have "ceilLog34 (Suc n) = Suc (ceilLog34 (Suc r))"
      using ceilLog34_double[of "Suc r"] by simp
    with Suc.IH show ?thesis unfolding a comparisonSum_Suc by simp
  qed
qed

text \<open>The number of items in the groups before group \<open>g\<close>.\<close>

fun groupStart :: "nat \<Rightarrow> nat" where
  "groupStart 0 = 0"
| "groupStart (Suc g) = (if g = 0 then 0 else groupStart g + nat (groupSize_spec g))"

lemma groupSize_spec_closed:
  assumes "1 \<le> g"
  shows "3 * groupSize_spec g = 2 ^ (g + 1) + (if odd g then 2 else - 2)"
proof -
  from assms obtain k where g: "g = Suc k" by (cases g) simp_all
  have "3 * groupSize (Suc k) = 2 ^ Suc (Suc k) - 2 * (- 1) ^ Suc k"
    by (rule groupSize_closed)
  then show ?thesis unfolding g groupSize_spec_eq by (cases "even k") simp_all
qed

lemma groupStart_closed:
  assumes "1 \<le> g"
  shows "3 * int (groupStart g) = 2 ^ (g + 1) - (if odd g then 4 else 2)"
  using assms
proof (induction g rule: nat_induct_at_least)
  case base
  show ?case by simp
next
  case (Suc g)
  from groupSize_spec_pos[of g] have "int (nat (groupSize_spec g)) = groupSize_spec g" by simp
  with Suc.hyps have "3 * int (groupStart (Suc g)) = 3 * int (groupStart g) + 3 * groupSize_spec g"
    by simp
  also have "\<dots> = 2 ^ (g + 1) - (if odd g then 4 else 2) + (2 ^ (g + 1) + (if odd g then 2 else - 2))"
    by (simp only: Suc.IH groupSize_spec_closed[OF Suc.hyps])
  also have "\<dots> = 2 ^ (Suc g + 1) - (if odd (Suc g) then 4 else 2)"
    by (cases "even g") simp_all
  finally show ?case .
qed

lemma group_width:
  assumes "1 \<le> g"
  shows "2 * int (groupStart g) + groupSize_spec g = 2 ^ (g + 1) - 2"
  using groupStart_closed[OF assms] groupSize_spec_closed[OF assms]
  by (cases "odd g") simp_all

lemma group_bits:
  assumes g: "1 \<le> g" and b: "b \<le> groupStart g + nat (groupSize_spec g)"
  shows "bits (groupStart g + b + 1) \<le> g + 1"
proof (rule bits_le)
  from groupSize_spec_pos[of g] have "int (nat (groupSize_spec g)) = groupSize_spec g" by simp
  with b have "int b \<le> int (groupStart g) + groupSize_spec g" by linarith
  with group_width[OF g] have "int (groupStart g + b + 1) < 2 ^ (g + 1)" by simp
  then show "groupStart g + b + 1 < 2 ^ (g + 1)"
    by (metis of_nat_less_iff of_nat_numeral of_nat_power)
qed

lemma group_ceilLog34:
  assumes g: "1 \<le> g" and lo: "groupStart g \<le> j"
    and hi: "j < groupStart g + nat (groupSize_spec g)"
  shows "ceilLog34 (2 * j + 3) = g + 1"
proof (rule ceilLog34_eqI)
  from groupSize_spec_pos[of g] have sz: "int (nat (groupSize_spec g)) = groupSize_spec g" by simp
  define P :: int where "P = 2 ^ (g + 1)"
  have a: "3 * int (groupStart g) = P - (if odd g then 4 else 2)"
    using groupStart_closed[OF g] by (simp add: P_def)
  have s: "3 * groupSize_spec g = P + (if odd g then 2 else - 2)"
    using groupSize_spec_closed[OF g] by (simp add: P_def)
  from lo have lo': "int (groupStart g) \<le> int j" by simp
  from hi sz have hi': "int j < int (groupStart g) + groupSize_spec g" by linarith
  have "2 * P < 3 * (2 * int j + 3)" using a lo' by (cases "odd g") simp_all
  then have "int (2 ^ (g + 1 + 1)) < int (3 * (2 * j + 3))" by (simp add: P_def)
  then show "2 ^ (g + 1 + 1) < 3 * (2 * j + 3)" by (simp only: of_nat_less_iff)
  have "3 * (2 * int j + 3) \<le> 4 * P" using a s hi' by (cases "odd g") simp_all
  then have "int (3 * (2 * j + 3)) \<le> int (2 ^ (g + 1 + 2))" by (simp add: P_def)
  then show "3 * (2 * j + 3) \<le> 2 ^ (g + 1 + 2)" by (simp only: of_nat_le_iff)
qed

lemma loopCost_append: "loopCost (xs @ ys) t = loopCost xs t + loopCost ys (t + length xs)"
  by (induction xs arbitrary: t) simp_all

lemma loopCost_rev_upt: "loopCost (rev [c..<d]) t = (d - c) * bits (d + t - 1)"
proof (induction d arbitrary: t)
  case 0
  show ?case by simp
next
  case (Suc d)
  show ?case
  proof (cases "c \<le> d")
    case True
    then have "Suc d - c = Suc (d - c)" by simp
    with True Suc[of "Suc t"] show ?thesis by simp
  next
    case False
    then show ?thesis by simp
  qed
qed

lemma group_cost:
  assumes g: "1 \<le> g" and ab: "groupStart g \<le> b"
    and b: "b \<le> groupStart g + nat (groupSize_spec g)"
  shows "loopCost (rev [2 + groupStart g..<2 + b]) (groupStart g)
           \<le> (\<Sum>j = groupStart g..<b. ceilLog34 (2 * j + 3))"
proof -
  let ?a = "groupStart g"
  have e1: "2 + b - (2 + ?a) = b - ?a" by simp
  have e2: "2 + b + ?a - 1 = ?a + b + 1" by simp
  have "loopCost (rev [2 + ?a..<2 + b]) ?a = (b - ?a) * bits (?a + b + 1)"
    by (simp only: loopCost_rev_upt e1 e2)
  also have "\<dots> \<le> (b - ?a) * (g + 1)"
    using group_bits[OF g b] by (intro mult_le_mono2)
  also have "\<dots> = (\<Sum>j = ?a..<b. g + 1)" by simp
  also have "\<dots> = (\<Sum>j = ?a..<b. ceilLog34 (2 * j + 3))"
  proof (rule sum.cong[OF refl])
    fix j assume "j \<in> {?a..<b}"
    then have "?a \<le> j" "j < ?a + nat (groupSize_spec g)" using b by simp_all
    with g show "g + 1 = ceilLog34 (2 * j + 3)" by (simp only: group_ceilLog34)
  qed
  finally show ?thesis .
qed

lemma groups_cost:
  assumes "1 \<le> g" and "xs = [2 + groupStart g..<2 + m]"
  shows "loopCost (concat (map rev (groups_spec g xs))) (groupStart g)
           \<le> (\<Sum>j = groupStart g..<m. ceilLog34 (2 * j + 3))"
  using assms
proof (induction g xs rule: groups_spec.induct)
  case (1 g xs)
  note g = "1.prems"(1) and xs = "1.prems"(2)
  let ?a = "groupStart g" and ?sz = "nat (groupSize_spec g)"
  have pos: "0 < ?sz" using groupSize_spec_pos[of g] by simp
  show ?case
  proof (cases "xs = []")
    case True
    then show ?thesis by (simp add: groups_spec.simps)
  next
    case False
    with xs have am: "?a < m" by (simp del: upt_Suc add_2_eq_Suc add_2_eq_Suc')
    have unfold: "groups_spec g xs = take ?sz xs # groups_spec (Suc g) (drop ?sz xs)"
      using False by (simp add: groups_spec.simps[of g xs])
    show ?thesis
    proof (cases "?a + ?sz \<le> m")
      case True
      have tk: "take ?sz xs = [2 + ?a..<2 + (?a + ?sz)]"
        unfolding xs using True by (simp add: take_upt add.assoc del: upt_Suc add_2_eq_Suc add_2_eq_Suc')
      have dr: "drop ?sz xs = [2 + groupStart (Suc g)..<2 + m]"
        unfolding xs using g by (simp add: drop_upt add.assoc del: upt_Suc add_2_eq_Suc add_2_eq_Suc')
      have st: "groupStart (Suc g) = ?a + ?sz" using g by simp
      from "1.IH"[OF False _ dr] g
      have rest: "loopCost (concat (map rev (groups_spec (Suc g) (drop ?sz xs)))) (?a + ?sz)
          \<le> (\<Sum>j = ?a + ?sz..<m. ceilLog34 (2 * j + 3))"
        unfolding st by simp
      have first: "loopCost (rev [2 + ?a..<2 + (?a + ?sz)]) ?a
          \<le> (\<Sum>j = ?a..<?a + ?sz. ceilLog34 (2 * j + 3))"
        by (rule group_cost[OF g]) simp_all
      have len: "length (rev [2 + ?a..<2 + (?a + ?sz)]) = ?sz"
        by (simp del: upt_Suc add_2_eq_Suc add_2_eq_Suc')
      have "concat (map rev (groups_spec g xs))
          = rev [2 + ?a..<2 + (?a + ?sz)] @ concat (map rev (groups_spec (Suc g) (drop ?sz xs)))"
        by (simp only: unfold tk list.map concat.simps)
      then have "loopCost (concat (map rev (groups_spec g xs))) ?a
          = loopCost (rev [2 + ?a..<2 + (?a + ?sz)]) ?a
            + loopCost (concat (map rev (groups_spec (Suc g) (drop ?sz xs)))) (?a + ?sz)"
        by (simp only: loopCost_append len)
      also have "\<dots> \<le> (\<Sum>j = ?a..<?a + ?sz. ceilLog34 (2 * j + 3))
          + (\<Sum>j = ?a + ?sz..<m. ceilLog34 (2 * j + 3))"
        using first rest by (rule add_mono)
      also have "\<dots> = (\<Sum>j = ?a..<m. ceilLog34 (2 * j + 3))"
        using True by (intro sum.atLeastLessThan_concat) simp_all
      finally show ?thesis .
    next
      case False
      then have short: "m < ?a + ?sz" by simp
      have tk: "take ?sz xs = [2 + ?a..<2 + m]"
        unfolding xs using short by (simp del: upt_Suc add_2_eq_Suc add_2_eq_Suc')
      have dr: "drop ?sz xs = []"
        unfolding xs using short by (simp del: upt_Suc add_2_eq_Suc add_2_eq_Suc')
      have "groups_spec (Suc g) [] = ([] :: nat list list)"
        by (simp add: groups_spec.simps)
      then have "concat (map rev (groups_spec g xs)) = rev [2 + ?a..<2 + m]"
        by (simp only: unfold tk dr list.map concat.simps append_Nil2)
      then have "loopCost (concat (map rev (groups_spec g xs))) ?a
          = loopCost (rev [2 + ?a..<2 + m]) ?a"
        by (simp only:)
      also have "\<dots> \<le> (\<Sum>j = ?a..<m. ceilLog34 (2 * j + 3))"
        using am short by (intro group_cost[OF g]) simp_all
      finally show ?thesis .
    qed
  qed
qed

lemma insertBound_le: "insertBound m \<le> oddSum m"
proof -
  have "loopCost (concat (map rev (groups_spec 1 [2 + groupStart 1..<2 + m]))) (groupStart 1)
          \<le> (\<Sum>j = groupStart 1..<m. ceilLog34 (2 * j + 3))"
    by (rule groups_cost) simp_all
  then show ?thesis
    by (simp add: insertBound_def insertionOrder_spec_def oddSum_def lessThan_atLeast0)
qed

lemma fjBound_le: "fjBound n \<le> comparisonSum n"
proof (induction n rule: fjBound.induct)
  case (1 n)
  consider "n < 2" | "n = 2" | "3 \<le> n" by linarith
  then show ?case
  proof cases
    case 1
    then show ?thesis by (simp add: fjBound.simps)
  next
    case 2
    have "ceilLog34 2 = Suc (ceilLog34 1)" using ceilLog34_double[of 1] by simp
    then have "comparisonSum 2 = 1"
      by (simp add: comparisonSum_def numeral_2_eq_2)
    with 2 show ?thesis by (simp add: fjBound.simps)
  next
    case 3
    then have "\<not> n < 2" "n \<noteq> 2" by simp_all
    from "1.IH"[OF this] have "fjBound (n div 2) \<le> comparisonSum (n div 2)" .
    with insertBound_le[of "(n + 1) div 2 - 1"] show ?thesis
      unfolding fjBound_step[OF 3] comparisonSum_split[of n] by simp
  qed
qed

lemma maxComparisons_comparisonSum:
  "mergeInsertionMaxComparisons (int n) = Inr (int (comparisonSum n))"
proof (cases "n = 0")
  case True
  then show ?thesis by (simp add: mergeInsertionMaxComparisons_def comparisonSum_def)
next
  case False
  then have "0 < n" by simp
  then show ?thesis by (simp only: maxComparisons_ceilLog34 comparisonSum_closed)
qed

section \<open>The number of comparisons\<close>

text \<open>
  Claim C2. In a run of \<open>mergeInsertionSort\<close> on \<open>n\<close> pairwise different items the number
  of different unordered pairs given to the comparator is at most
  \<open>mergeInsertionMaxComparisons(n)\<close>. The number of calls itself is within the bound, and no
  assumption on the comparator's answers is needed: the bound holds for a comparator
  derived from a total order as for any other, in successful and in failed runs.
\<close>

theorem comparisons_within_bound:
  assumes "distinct array"
    and "mergeInsertionSort (traced cmp) array (s, []) = (res, (s', calls))"
  shows "\<exists>bound. mergeInsertionMaxComparisons (int (length array)) = Inr bound \<and>
           int (card ((\<lambda>(a, b). {a, b}) ` set calls)) \<le> bound \<and>
           int (length calls) \<le> bound"
proof -
  from mergeInsertionSort_trace[OF assms] have "length calls \<le> fjBound (length array)"
    by simp
  also have "\<dots> \<le> comparisonSum (length array)" by (rule fjBound_le)
  finally have l: "length calls \<le> comparisonSum (length array)" .
  have "card ((\<lambda>(a, b). {a, b}) ` set calls) \<le> card (set calls)"
    by (rule card_image_le) simp
  also have "\<dots> \<le> length calls" by (rule card_length)
  finally have "card ((\<lambda>(a, b). {a, b}) ` set calls) \<le> comparisonSum (length array)"
    using l by simp
  with l maxComparisons_comparisonSum[of "length array"] show ?thesis by simp
qed

theorem comparisons_within_bound_witness:
  "distinct [4, 5, 1, 3, 6 :: nat] \<and>
   mergeInsertionSort (traced (orderComparator (<))) [4, 5, 1, 3, 6 :: nat] ((), [])
     = (Inr [1, 3, 4, 5, 6], ((), [(4, 5), (1, 3), (5, 3), (6, 3), (6, 5), (4, 1), (4, 3)])) \<and>
   (\<exists>bound. mergeInsertionMaxComparisons (int (length [4, 5, 1, 3, 6 :: nat])) = Inr bound \<and>
      int (card ((\<lambda>(a, b). {a, b})
         ` set [(4, 5), (1, 3), (5, 3), (6, 3), (6, 5), (4, 1), (4 :: nat, 3 :: nat)])) \<le> bound \<and>
      int (length [(4, 5), (1, 3), (5, 3), (6, 3), (6, 5), (4, 1), (4 :: nat, 3 :: nat)]) \<le> bound)"
proof -
  have d: "distinct [4, 5, 1, 3, 6 :: nat]" by simp
  have r: "mergeInsertionSort (traced (orderComparator (<))) [4, 5, 1, 3, 6 :: nat] ((), [])
     = (Inr [1, 3, 4, 5, 6], ((), [(4, 5), (1, 3), (5, 3), (6, 3), (6, 5), (4, 1), (4, 3)]))"
    by code_simp
  from comparisons_within_bound[OF d r] d r show ?thesis by blast
qed

section \<open>The earlier generation of the module: sorting through a comparison cache\<close>

text \<open>
  The source holds two generations of the module. The later one is modelled above. In the
  earlier one the exported \<open>mergeInsertionSort\<close> wraps the caller's comparator in
  \<open>_cachedComparator\<close> and hands it to \<open>_mergeInsertionSort\<close>, which inserts with \<open>_binInsert\<close>
  into a range bounded by a fixed index. Its functions carry the suffix \<open>0\<close> here where
  their names are those of the later generation. Where the source would carry on with
  \<open>undefined\<close> (a missing key of \<open>pairs\<close>, an index out of range) the model carries on with
  the unspecified value \<open>the None\<close> or \<open>xs ! i\<close>.
\<close>

function makeGroups0_loop ::
  "'a list \<Rightarrow> nat \<Rightarrow> int \<Rightarrow> (int \<times> 'a) list \<Rightarrow> (int \<times> 'a) list" where
  "makeGroups0_loop xs k i rv =
     (let curGroupSize = groupSize (Suc k);
          part = slice xs i (i + curGroupSize);
          curGroup = map (\<lambda>(j, e). (int j + i + 3, e)) (zip [0..<length part] part);
          rv' = rv @ rev curGroup
      in if int (length curGroup) < curGroupSize then rv'
         else makeGroups0_loop xs (Suc k) (i + curGroupSize) rv')"
  by pat_completeness auto
termination
proof (relation "measure (\<lambda>(xs, k, i, rv). nat (int (length xs) + 1 - i))", goal_cases)
  case 1
  show ?case by simp
next
  case (2 xs k i rv curGroupSize part curGroup rv')
  have pos: "0 < curGroupSize"
    unfolding 2(1) by (rule groupSize_pos)
  have "i < int (length xs)"
  proof (rule ccontr)
    assume "\<not> i < int (length xs)"
    then have "slice xs i (i + curGroupSize) = []"
      using pos by (simp add: slice_def)
    with 2(2,3,5) pos show False by simp
  qed
  with pos show ?case by simp
qed

declare makeGroups0_loop.simps [simp del]

definition makeGroups0 :: "'a list \<Rightarrow> (int \<times> 'a) list" where
  "makeGroups0 xs = makeGroups0_loop xs 0 0 []"

function binInsert_loop ::
  "('a, 's) Comparator \<Rightarrow> 'a list \<Rightarrow> 'a \<Rightarrow> int \<Rightarrow> int \<Rightarrow> 's \<Rightarrow> (error + nat) \<times> 's" where
  "binInsert_loop cmp array x l r s =
     (if l \<le> r then
        (let m = (l + r) div 2 in
         case cmp (x, array ! nat m) s of
           (None, s') \<Rightarrow> (Inl ComparatorFailure, s')
         | (Some c, s') \<Rightarrow>
             if c then binInsert_loop cmp array x l (m - 1) s'
             else binInsert_loop cmp array x (m + 1) r s')
      else (Inr (nat l), s))"
  by pat_completeness auto
termination
  by (relation "measure (\<lambda>(cmp, array, x, l, r, s). nat (r - l + 1))") auto

declare binInsert_loop.simps [simp del]

text \<open>\<open>_binInsert\<close> changes its array in place; the model returns the changed array.\<close>

definition binInsert ::
  "'a list \<Rightarrow> int \<Rightarrow> 'a \<Rightarrow> ('a, 's) Comparator \<Rightarrow> 's \<Rightarrow> (error + 'a list) \<times> 's" where
  "binInsert array right x cmp s =
     (if x \<in> set array then (Inl ItemAlreadyInArray, s)
      else if right < 0 then (Inl NegativeIndex, s)
      else
        (case binInsert_loop cmp array x 0 (min right (int (length array) - 1)) s of
           (Inl e, s') \<Rightarrow> (Inl e, s')
         | (Inr l, s') \<Rightarrow> (Inr (splice_at array l x), s')))"

text \<open>
  The cache of \<open>_cachedComparator\<close> is a \<open>Map\<close> from the first item to a \<open>Map\<close> from the
  second item to the answer. It belongs to the wrapper, so it is part of the state of the
  wrapped comparator, next to the state of the comparator it wraps.
\<close>

type_synonym 'a cache = "'a \<rightharpoonup> ('a \<rightharpoonup> bool)"

definition cacheGet :: "'a cache \<Rightarrow> 'a \<Rightarrow> 'a \<Rightarrow> bool option" where
  "cacheGet cache a b = (case cache a of None \<Rightarrow> None | Some m \<Rightarrow> m b)"

definition cachedComparator :: "('a, 's) Comparator \<Rightarrow> ('a, 'a cache \<times> 's) Comparator" where
  "cachedComparator cmp ab st =
     (case ab of (a, b) \<Rightarrow> case st of (cache, s) \<Rightarrow>
        (case cacheGet cache a b of
           Some v \<Rightarrow> (Some v, (cache, s))
         | None \<Rightarrow>
             (case cacheGet cache b a of
                Some v \<Rightarrow> (Some (\<not> v), (cache, s))
              | None \<Rightarrow>
                  (case cmp (a, b) s of
                     (None, s') \<Rightarrow> (None, (cache, s'))
                   | (Some rv, s') \<Rightarrow>
                       (Some rv,
                        ((case cache a of
                            Some m \<Rightarrow> cache(a \<mapsto> m(b \<mapsto> rv))
                          | None \<Rightarrow> cache(a \<mapsto> [b \<mapsto> rv])), s'))))))"

fun insertGroups ::
  "('a, 's) Comparator \<Rightarrow> (int \<times> 'a) list \<Rightarrow> 'a list \<Rightarrow> 's \<Rightarrow> (error + 'a list) \<times> 's" where
  "insertGroups cmp [] results s = (Inr results, s)"
| "insertGroups cmp ((idx, x) # groups) results s =
     (case binInsert results (idx - 1) x cmp s of
        (Inl e, s') \<Rightarrow> (Inl e, s')
      | (Inr results', s') \<Rightarrow> insertGroups cmp groups results' s')"

function mergeInsertionSort_inner ::
  "('a, 's) Comparator \<Rightarrow> 'a list \<Rightarrow> 's \<Rightarrow> (error + 'a list) \<times> 's" where
  "mergeInsertionSort_inner cmp array s =
     (if length array < 1 then (Inr [], s)
      else if length array = 1 then (Inr array, s)
      else if length array \<noteq> card (set array) then (Inl DuplicateItems, s)
      else if length array = 2 then
        (case cmp (array ! 0, array ! 1) s of
           (None, s') \<Rightarrow> (Inl ComparatorFailure, s')
         | (Some c, s') \<Rightarrow> (Inr (if c then array else [array ! 1, array ! 0]), s'))
      else
        (case mkPairs cmp array 0 [] s of
           (Inl e, s1) \<Rightarrow> (Inl e, s1)
         | (Inr pairs, s1) \<Rightarrow>
             (case mergeInsertionSort_inner cmp (map fst pairs) s1 of
                (Inl e, s2) \<Rightarrow> (Inl e, s2)
              | (Inr results, s2) \<Rightarrow>
                  (let results1 = the (map_of pairs (results ! 0)) # results;
                       remaining = map (\<lambda>e. the (map_of pairs e))
                                     (slice results1 2 (int (length results1)));
                       remaining' = (if length array mod 2 = 1
                                     then remaining @ [array ! (length array - 1)]
                                     else remaining);
                       groups = makeGroups0 remaining'
                   in insertGroups cmp groups results1 s2))))"
  by pat_completeness auto
termination
proof (relation "measure (\<lambda>(cmp, array, s). length array)", goal_cases)
  case 1
  show ?case by simp
next
  case (2 cmp array s x1 s1 pairs)
  from 2 have "mkPairs cmp array 0 [] s = (Inr pairs, s1)" by simp
  from mkPairs_length[OF this] have "length pairs \<le> length array div 2" by simp
  moreover from 2(1) have "0 < length array" by simp
  ultimately have "length pairs < length array" by linarith
  then show ?case by simp
qed

declare mergeInsertionSort_inner.simps [simp del]

text \<open>The exported function of the earlier generation: a new, empty cache for every call.\<close>

definition mergeInsertionSort0 ::
  "('a, 's) Comparator \<Rightarrow> 'a list \<Rightarrow> 's \<Rightarrow> (error + 'a list) \<times> 's" where
  "mergeInsertionSort0 comparator array s =
     (case mergeInsertionSort_inner (cachedComparator comparator) array (Map.empty, s) of
        (res, (cache, s')) \<Rightarrow> (res, s'))"


section \<open>What every call through the comparator preserves\<close>

text \<open>
  \<open>preserves I J cmp\<close>: a call of \<open>cmp\<close> in a state with \<open>I\<close> leads to a state with \<open>J\<close>,
  and to a state with \<open>I\<close> again when the call was not rejected. The sort stops at the first
  rejected call, so it ends in a state with \<open>J\<close>, and with \<open>I\<close> if it succeeded.
\<close>

definition preserves :: "('s \<Rightarrow> bool) \<Rightarrow> ('s \<Rightarrow> bool) \<Rightarrow> ('a, 's) Comparator \<Rightarrow> bool" where
  "preserves I J cmp \<longleftrightarrow>
     (\<forall>st. I st \<longrightarrow> J st) \<and>
     (\<forall>ab st c st'. I st \<longrightarrow> cmp ab st = (c, st') \<longrightarrow> J st' \<and> (c \<noteq> None \<longrightarrow> I st'))"

lemma preserves_call:
  "preserves I J cmp \<Longrightarrow> I st \<Longrightarrow> cmp ab st = (c, st') \<Longrightarrow> J st' \<and> (c \<noteq> None \<longrightarrow> I st')"
  unfolding preserves_def by blast

lemma preserves_weaken: "preserves I J cmp \<Longrightarrow> I st \<Longrightarrow> J st"
  unfolding preserves_def by blast

lemma binInsert_loop_preserves:
  assumes "preserves I J cmp" and "I st" and "binInsert_loop cmp array x l r st = (res, st')"
  shows "J st' \<and> (\<forall>v. res = Inr v \<longrightarrow> I st')"
  using assms
proof (induction cmp array x l r st rule: binInsert_loop.induct)
  case (1 cmp array x l r st)
  note pr = "1.prems"(1) and I = "1.prems"(2) and run = "1.prems"(3)
  show ?case
  proof (cases "l \<le> r")
    case False
    with run I preserves_weaken[OF pr I] show ?thesis
      by (simp add: binInsert_loop.simps[of cmp array x l r])
  next
    case True
    define m where "m = (l + r) div 2"
    obtain c st1 where c: "cmp (x, array ! nat m) st = (c, st1)"
      by (cases "cmp (x, array ! nat m) st")
    from preserves_call[OF pr I c] have J1: "J st1" and I1: "c \<noteq> None \<longrightarrow> I st1" by simp_all
    show ?thesis
    proof (cases c)
      case None
      with True c run J1 show ?thesis
        by (auto simp: binInsert_loop.simps[of cmp array x l r] m_def[symmetric])
    next
      case (Some b)
      with I1 have I1': "I st1" by simp
      show ?thesis
      proof (cases b)
        case True
        from \<open>l \<le> r\<close> c Some True run
        have "binInsert_loop cmp array x l (m - 1) st1 = (res, st')"
          by (simp add: binInsert_loop.simps[of cmp array x l r] m_def[symmetric])
        from "1.IH"(1)[OF \<open>l \<le> r\<close> m_def c[symmetric] Some True pr I1' this] show ?thesis .
      next
        case False
        from \<open>l \<le> r\<close> c Some False run
        have "binInsert_loop cmp array x (m + 1) r st1 = (res, st')"
          by (simp add: binInsert_loop.simps[of cmp array x l r] m_def[symmetric])
        from "1.IH"(2)[OF \<open>l \<le> r\<close> m_def c[symmetric] Some False pr I1' this] show ?thesis .
      qed
    qed
  qed
qed

lemma binInsert_preserves:
  assumes pr: "preserves I J cmp" and I: "I st" and run: "binInsert array right x cmp st = (res, st')"
  shows "J st' \<and> (\<forall>v. res = Inr v \<longrightarrow> I st')"
proof (cases "x \<in> set array \<or> right < 0")
  case True
  with run have "st' = st" and "\<forall>v. res \<noteq> Inr v"
    by (auto simp: binInsert_def split: if_splits)
  with preserves_weaken[OF pr I] show ?thesis by simp
next
  case False
  obtain r st1 where loop: "binInsert_loop cmp array x 0 (min right (int (length array) - 1)) st = (r, st1)"
    by (cases "binInsert_loop cmp array x 0 (min right (int (length array) - 1)) st")
  from binInsert_loop_preserves[OF pr I loop] have "J st1" "\<forall>v. r = Inr v \<longrightarrow> I st1" by simp_all
  moreover from False run loop have "st' = st1" "\<forall>v. res = Inr v \<longrightarrow> (\<exists>w. r = Inr w)"
    by (auto simp: binInsert_def split: sum.splits)
  ultimately show ?thesis by blast
qed

lemma insertGroups_preserves:
  assumes "preserves I J cmp" and "I st" and "insertGroups cmp groups results st = (res, st')"
  shows "J st' \<and> (\<forall>v. res = Inr v \<longrightarrow> I st')"
  using assms
proof (induction groups arbitrary: results st)
  case Nil
  with preserves_weaken[OF Nil(1,2)] show ?case by simp
next
  case (Cons g groups)
  obtain idx x where g: "g = (idx, x)" by (cases g)
  obtain r st1 where b: "binInsert results (idx - 1) x cmp st = (r, st1)"
    by (cases "binInsert results (idx - 1) x cmp st")
  from binInsert_preserves[OF Cons.prems(1,2) b] have J1: "J st1" and I1: "\<forall>v. r = Inr v \<longrightarrow> I st1"
    by simp_all
  show ?case
  proof (cases r)
    case (Inl e)
    with Cons.prems(3) g b J1 show ?thesis by auto
  next
    case (Inr results')
    with I1 have "I st1" by simp
    moreover from Cons.prems(3) g b Inr have "insertGroups cmp groups results' st1 = (res, st')"
      by simp
    ultimately show ?thesis using Cons.IH[OF Cons.prems(1)] by blast
  qed
qed

lemma mkPairs_preserves:
  assumes "preserves I J cmp" and "I st" and "mkPairs cmp array i pairs st = (res, st')"
  shows "J st' \<and> (\<forall>v. res = Inr v \<longrightarrow> I st')"
  using assms
proof (induction cmp array i pairs st rule: mkPairs.induct)
  case (1 cmp array i pairs st)
  note pr = "1.prems"(1) and I = "1.prems"(2) and run = "1.prems"(3)
  show ?case
  proof (cases "i + 1 < length array")
    case False
    with run I preserves_weaken[OF pr I] show ?thesis
      by (simp add: mkPairs.simps[of cmp array i])
  next
    case True
    obtain c st1 where c: "cmp (array ! i, array ! (i + 1)) st = (c, st1)"
      by (cases "cmp (array ! i, array ! (i + 1)) st")
    from preserves_call[OF pr I c] have J1: "J st1" and I1: "c \<noteq> None \<longrightarrow> I st1" by simp_all
    show ?thesis
    proof (cases c)
      case None
      with True c run J1 show ?thesis by (auto simp: mkPairs.simps[of cmp array i])
    next
      case (Some b)
      with I1 have I1': "I st1" by simp
      let ?ps = "if b then Map_set pairs (array ! (i + 1)) (array ! i)
                 else Map_set pairs (array ! i) (array ! (i + 1))"
      from True c Some run have "mkPairs cmp array (i + 2) ?ps st1 = (res, st')"
        by (simp add: mkPairs.simps[of cmp array i])
      from "1.IH"[OF True c[symmetric] Some pr I1' this] show ?thesis .
    qed
  qed
qed

lemma mergeInsertionSort_inner_preserves:
  assumes "preserves I J cmp" and "I st" and "mergeInsertionSort_inner cmp array st = (res, st')"
  shows "J st' \<and> (\<forall>v. res = Inr v \<longrightarrow> I st')"
  using assms
proof (induction cmp array st arbitrary: res st' rule: mergeInsertionSort_inner.induct)
  case (1 cmp array st)
  note pr = "1.prems"(1) and I = "1.prems"(2) and run = "1.prems"(3)
  note J = preserves_weaken[OF pr I]
  consider "length array < 1" | "length array = 1"
    | "1 < length array" "length array \<noteq> card (set array)"
    | "length array = 2" "length array = card (set array)"
    | "3 \<le> length array" "length array = card (set array)"
    by linarith
  then show ?case
  proof cases
    case 1
    with run I J show ?thesis by (simp add: mergeInsertionSort_inner.simps)
  next
    case 2
    with run I J show ?thesis by (auto simp: mergeInsertionSort_inner.simps)
  next
    case 3
    then have "\<not> length array < 1" "length array \<noteq> 1" by auto
    with 3 run I J show ?thesis by (simp add: mergeInsertionSort_inner.simps[of cmp array])
  next
    case 4
    then have c4: "\<not> length array < 1" "length array \<noteq> 1" by auto
    obtain c st1 where c: "cmp (array ! 0, array ! 1) st = (c, st1)"
      by (cases "cmp (array ! 0, array ! 1) st")
    from preserves_call[OF pr I c] have "J st1" "c \<noteq> None \<longrightarrow> I st1" by simp_all
    moreover from run 4 c4 c have "st' = st1" "\<forall>v. res = Inr v \<longrightarrow> c \<noteq> None"
      by (auto simp: mergeInsertionSort_inner.simps[of cmp array] split: option.splits)
    ultimately show ?thesis by blast
  next
    case 5
    then have c: "\<not> length array < 1" "length array \<noteq> 1" "length array \<noteq> 2" by auto
    note card = 5(2)
    obtain r1 st1 where mk: "mkPairs cmp array 0 [] st = (r1, st1)"
      by (cases "mkPairs cmp array 0 [] st")
    from mkPairs_preserves[OF pr I mk] have J1: "J st1" and I1: "\<forall>v. r1 = Inr v \<longrightarrow> I st1"
      by simp_all
    show ?thesis
    proof (cases r1)
      case (Inl e)
      with run c card mk J1 show ?thesis
        by (auto simp: mergeInsertionSort_inner.simps[of cmp array])
    next
      case (Inr pairs)
      with I1 have I1': "I st1" by simp
      obtain r2 st2 where rec: "mergeInsertionSort_inner cmp (map fst pairs) st1 = (r2, st2)"
        by (cases "mergeInsertionSort_inner cmp (map fst pairs) st1")
      from "1.IH"[OF c(1) c(2) _ c(3) mk[symmetric, unfolded Inr] refl pr I1' rec] card
      have J2: "J st2" and I2: "\<forall>v. r2 = Inr v \<longrightarrow> I st2" by simp_all
      show ?thesis
      proof (cases r2)
        case (Inl e)
        with run c card mk Inr rec J2 show ?thesis
          by (auto simp: mergeInsertionSort_inner.simps[of cmp array])
      next
        case r2: (Inr results)
        with I2 have I2': "I st2" by simp
        from run c card mk Inr rec r2 obtain groups results1 where
          "insertGroups cmp groups results1 st2 = (res, st')"
          by (simp add: mergeInsertionSort_inner.simps[of cmp array] Let_def)
        from insertGroups_preserves[OF pr I2' this] show ?thesis .
      qed
    qed
  qed
qed

section \<open>The cache in front of the external comparator\<close>

text \<open>No unordered pair occurs twice in a log of calls.\<close>

definition noRepeat :: "('a \<times> 'a) list \<Rightarrow> bool" where
  "noRepeat calls \<longleftrightarrow> distinct (map (\<lambda>(a, b). {a, b}) calls)"

text \<open>The state of the cached, logging comparator between two calls: no pair was given
  twice to the external comparator, and every pair given to it is in the cache, in one
  order or the other.\<close>

definition cacheInv :: "'a cache \<times> 's \<times> ('a \<times> 'a) list \<Rightarrow> bool" where
  "cacheInv st \<longleftrightarrow>
     noRepeat (snd (snd st)) \<and>
     (\<forall>(a, b)\<in>set (snd (snd st)).
        cacheGet (fst st) a b \<noteq> None \<or> cacheGet (fst st) b a \<noteq> None)"

definition logNoRepeat :: "'a cache \<times> 's \<times> ('a \<times> 'a) list \<Rightarrow> bool" where
  "logNoRepeat st \<longleftrightarrow> noRepeat (snd (snd st))"

lemma cacheGet_store:
  "cacheGet (case cache a of Some m \<Rightarrow> cache(a \<mapsto> m(b \<mapsto> rv)) | None \<Rightarrow> cache(a \<mapsto> [b \<mapsto> rv])) x y
     = (if x = a \<and> y = b then Some rv else cacheGet cache x y)"
  by (auto simp: cacheGet_def split: option.splits)

lemma noRepeat_snoc:
  assumes "noRepeat calls"
    and "\<forall>(a', b')\<in>set calls. \<not> (a' = a \<and> b' = b) \<and> \<not> (a' = b \<and> b' = a)"
  shows "noRepeat (calls @ [(a, b)])"
proof -
  have "{a, b} \<notin> set (map (\<lambda>(a, b). {a, b}) calls)"
  proof
    assume "{a, b} \<in> set (map (\<lambda>(a, b). {a, b}) calls)"
    then obtain a' b' where m: "(a', b') \<in> set calls" and e: "{a', b'} = {a, b}" by auto
    from e have "(a' = a \<and> b' = b) \<or> (a' = b \<and> b' = a)" by (auto simp: doubleton_eq_iff)
    with assms(2) m show False by blast
  qed
  with assms(1) show ?thesis by (simp add: noRepeat_def)
qed

lemma cachedComparator_preserves:
  fixes comparator :: "('a, 's) Comparator"
  shows "preserves cacheInv logNoRepeat (cachedComparator (traced comparator))"
proof -
  have A: "logNoRepeat st" if "cacheInv st" for st :: "'a cache \<times> 's \<times> ('a \<times> 'a) list"
    using that by (simp add: cacheInv_def logNoRepeat_def)
  have B: "logNoRepeat st' \<and> (c \<noteq> None \<longrightarrow> cacheInv st')"
    if I: "cacheInv st" and call: "cachedComparator (traced comparator) ab st = (c, st')"
    for ab :: "'a \<times> 'a" and st st' :: "'a cache \<times> 's \<times> ('a \<times> 'a) list" and c
  proof -
    obtain a b where ab: "ab = (a, b)" by (cases ab)
    obtain cache s calls where st: "st = (cache, (s, calls))" by (cases st) auto
    from I st have nr: "noRepeat calls"
      and cached: "\<forall>(x, y)\<in>set calls. cacheGet cache x y \<noteq> None \<or> cacheGet cache y x \<noteq> None"
      by (simp_all add: cacheInv_def)
    show ?thesis
    proof (cases "cacheGet cache a b \<noteq> None \<or> cacheGet cache b a \<noteq> None")
      case True
      with call ab st have "st' = st"
        by (auto simp: cachedComparator_def split: option.splits)
      with I show ?thesis by (simp add: cacheInv_def logNoRepeat_def)
    next
      case False
      then have miss: "cacheGet cache a b = None" "cacheGet cache b a = None" by simp_all
      obtain r s1 where ext: "comparator (a, b) s = (r, s1)" by (cases "comparator (a, b) s")
      then have tr: "traced comparator (a, b) (s, calls) = (r, (s1, calls @ [(a, b)]))"
        by (simp add: traced_def)
      have fresh: "\<forall>(a', b')\<in>set calls. \<not> (a' = a \<and> b' = b) \<and> \<not> (a' = b \<and> b' = a)"
        using cached miss by fastforce
      from noRepeat_snoc[OF nr fresh] have nr': "noRepeat (calls @ [(a, b)])" .
      show ?thesis
      proof (cases r)
        case None
        with call ab st miss tr have "st' = (cache, (s1, calls @ [(a, b)]))" "c = None"
          by (simp_all add: cachedComparator_def)
        with nr' show ?thesis by (simp add: logNoRepeat_def)
      next
        case (Some rv)
        let ?cache = "case cache a of Some m \<Rightarrow> cache(a \<mapsto> m(b \<mapsto> rv))
                      | None \<Rightarrow> cache(a \<mapsto> [b \<mapsto> rv])"
        from Some call ab st miss tr have st': "st' = (?cache, (s1, calls @ [(a, b)]))"
          by (simp add: cachedComparator_def)
        have "\<forall>(x, y)\<in>set (calls @ [(a, b)]).
                cacheGet ?cache x y \<noteq> None \<or> cacheGet ?cache y x \<noteq> None"
          using cached by (auto simp: cacheGet_store)
        with nr' st' show ?thesis by (simp add: cacheInv_def logNoRepeat_def)
      qed
    qed
  qed
  show ?thesis unfolding preserves_def using A B by blast
qed

section \<open>No pair is given twice to the caller's comparator\<close>

text \<open>
  Claim C3. During one top-level call of the \<open>mergeInsertionSort\<close> that wraps the caller's
  comparator in the comparison cache before it sorts (and recurses), the caller's
  comparator is never invoked twice for the same unordered pair of items, at whatever
  level of the recursion, whatever the input and the comparator's answers, and whether
  the call succeeds or fails.
\<close>

theorem cache_never_repeats:
  assumes "mergeInsertionSort0 (traced comparator) array (s, []) = (res, (s', calls))"
  shows "distinct (map (\<lambda>(a, b). {a, b}) calls)"
proof -
  obtain r cache where inner: "mergeInsertionSort_inner (cachedComparator (traced comparator)) array
      (Map.empty, (s, [])) = (r, (cache, (s', calls)))"
    using assms by (auto simp: mergeInsertionSort0_def split: prod.splits)
  have "cacheInv (Map.empty :: 'a cache, (s, [] :: ('a \<times> 'a) list))"
    by (simp add: cacheInv_def noRepeat_def)
  from mergeInsertionSort_inner_preserves[OF cachedComparator_preserves this inner]
  have "logNoRepeat (cache, (s', calls))" by simp
  then show ?thesis by (simp add: logNoRepeat_def noRepeat_def)
qed

text \<open>The witness is a run in which the sort asks for a pair a second time: without the
  cache the pair \<open>(4, 5)\<close> is given to the comparator twice, with it once.\<close>

lemma without_cache_repeats:
  "mergeInsertionSort_inner (traced (orderComparator (<))) [4, 5, 1, 3 :: nat] ((), [])
     = (Inr [1, 3, 4, 5], ((), [(4, 5), (1, 3), (5, 3), (4, 3), (4, 5)]))"
  by code_simp

theorem cache_never_repeats_witness:
  "mergeInsertionSort0 (traced (orderComparator (<))) [4, 5, 1, 3 :: nat] ((), [])
     = (Inr [1, 3, 4, 5], ((), [(4, 5), (1, 3), (5, 3), (4, 3)])) \<and>
   distinct (map (\<lambda>(a, b). {a, b}) [(4, 5), (1, 3), (5, 3), (4 :: nat, 3 :: nat)])"
proof -
  have r: "mergeInsertionSort0 (traced (orderComparator (<))) [4, 5, 1, 3 :: nat] ((), [])
     = (Inr [1, 3, 4, 5], ((), [(4, 5), (1, 3), (5, 3), (4, 3)]))"
    by code_simp
  from cache_never_repeats[OF r] r show ?thesis by blast
qed

section \<open>The earlier generation does not always sort\<close>

text \<open>
  Claim C1 says that \<open>mergeInsertionSort\<close>, for pairwise different items and a comparator
  derived from a strict total order, returns the items in ascending order. The later
  \<open>mergeInsertionSort\<close> does (\<open>mergeInsertionSort_sorts\<close>). The earlier one, the default
  export over \<open>_mergeInsertionSort\<close>, whose documentation promises \<open>The array sorted in
  ascending order\<close>, does not: it searches for the place of an item up to the fixed index
  \<open>idx - 1\<close> that \<open>_makeGroups\<close> has given the item, and that index does not follow the
  output sequence as it grows. On the seven items \<open>1, ..., 7\<close>, already in order, with the
  comparator of \<open><\<close>, the output sequence is \<open>[1, 2, 3, 4, 5, 6]\<close> when the leftover
  item \<open>7\<close> comes with \<open>idx - 1 = 4\<close>: it is compared with \<open>3\<close>, \<open>4\<close> and \<open>5\<close>, never with
  \<open>6\<close>, and spliced in at index \<open>5\<close>. The later generation compares it with \<open>6\<close> as well.
\<close>

theorem earlier_mergeInsertionSort_unsorted:
  "mergeInsertionSort0 (traced (orderComparator (<))) [1, 2, 3, 4, 5, 6, 7 :: nat] ((), [])
     = (Inr [1, 2, 3, 4, 5, 7, 6],
        ((), [(1, 2), (3, 4), (5, 6), (2, 4), (6, 2), (6, 4), (5, 2), (5, 4), (3, 2),
              (7, 3), (7, 4), (7, 5)])) \<and>
   \<not> sorted_wrt (<) [1, 2, 3, 4, 5, 7, 6 :: nat] \<and>
   mergeInsertionSort (traced (orderComparator (<))) [1, 2, 3, 4, 5, 6, 7 :: nat] ((), [])
     = (Inr [1, 2, 3, 4, 5, 6, 7],
        ((), [(1, 2), (3, 4), (5, 6), (2, 4), (6, 2), (6, 4), (5, 2), (5, 4), (3, 1),
              (3, 2), (7, 3), (7, 5), (7, 6)]))"
proof -
  have "mergeInsertionSort0 (traced (orderComparator (<))) [1, 2, 3, 4, 5, 6, 7 :: nat] ((), [])
     = (Inr [1, 2, 3, 4, 5, 7, 6],
        ((), [(1, 2), (3, 4), (5, 6), (2, 4), (6, 2), (6, 4), (5, 2), (5, 4), (3, 2),
              (7, 3), (7, 4), (7, 5)]))"
    by code_simp
  moreover have "\<not> sorted_wrt (<) [1, 2, 3, 4, 5, 7, 6 :: nat]" by simp
  moreover have
    "mergeInsertionSort (traced (orderComparator (<))) [1, 2, 3, 4, 5, 6, 7 :: nat] ((), [])
     = (Inr [1, 2, 3, 4, 5, 6, 7],
        ((), [(1, 2), (3, 4), (5, 6), (2, 4), (6, 2), (6, 4), (5, 2), (5, 4), (3, 1),
              (3, 2), (7, 3), (7, 5), (7, 6)]))"
    by code_simp
  ultimately show ?thesis by (intro conjI)
qed

text \<open>The same on eight items, where no item is left over: the smaller item \<open>7\<close> of the
  last pair is searched for up to the same fixed index.\<close>

lemma earlier_generation_unsorted:
  "mergeInsertionSort0 (orderComparator (<)) [1, 2, 3, 4, 5, 6, 7, 8 :: nat] ()
     = (Inr [1, 2, 3, 4, 5, 7, 6, 8], ())"
  by code_simp

section \<open>The caller's array\<close>

text \<open>
  Arrays of items are objects that caller and callee share by reference. To say what a
  call does to the caller's array, the arrays of items live in a store here (a list of
  arrays, a reference being an index into it); \<open>mergeInsertionSort\<close> gets the reference of
  its input and returns the reference of its result. The arrays of items that the source
  makes and hands on are allocations: \<open>[]\<close>, \<open>Array.from(array)\<close> and the array literal of
  the short cases, \<open>Array.from(pairs.keys())\<close> for the recursive call, and the final
  \<open>mainChain.map(...)\<close>. The input is read from the store where the source reads it: at the
  start, and again after the recursive call for the leftover item. The in-place operations
  of the source (\<open>unshift\<close>, \<open>push\<close>, \<open>splice\<close>, \<open>delete\<close>) act on the main chain, on
  \<open>toInsert\<close> and on their objects, which \<open>insertSmaller\<close> builds itself and keeps to itself, as it does the
  arrays it hands to \<open>_binInsertIdx\<close>; none of them acts on an array of items of the store.
  The comparator's own state is separate from the store: a comparator that writes to the
  array it is sorting is outside this model.
\<close>

type_synonym 'a arrays = "'a list list"

definition alloc :: "'a list \<Rightarrow> 'a arrays \<Rightarrow> nat \<times> 'a arrays" where
  "alloc xs arrays = (length arrays, arrays @ [xs])"

function mergeInsertionSort_ref ::
  "('a, 's) Comparator \<Rightarrow> nat \<Rightarrow> 'a arrays \<times> 's \<Rightarrow> (error + nat) \<times> 'a arrays \<times> 's" where
  "mergeInsertionSort_ref cmp array (arrays, s) =
     (if length (arrays ! array) < 1 then
        (case alloc [] arrays of (r, arrays') \<Rightarrow> (Inr r, (arrays', s)))
      else if length (arrays ! array) = 1 then
        (case alloc (arrays ! array) arrays of (r, arrays') \<Rightarrow> (Inr r, (arrays', s)))
      else if length (arrays ! array) \<noteq> card (set (arrays ! array)) then
        (Inl DuplicateItems, (arrays, s))
      else if length (arrays ! array) = 2 then
        (case cmp (arrays ! array ! 0, arrays ! array ! 1) s of
           (None, s') \<Rightarrow> (Inl ComparatorFailure, (arrays, s'))
         | (Some c, s') \<Rightarrow>
             (case alloc (if c then arrays ! array
                          else [arrays ! array ! 1, arrays ! array ! 0]) arrays of
                (r, arrays') \<Rightarrow> (Inr r, (arrays', s'))))
      else
        (case mkPairs cmp (arrays ! array) 0 [] s of
           (Inl e, s1) \<Rightarrow> (Inl e, (arrays, s1))
         | (Inr pairs, s1) \<Rightarrow>
             (case alloc (map fst pairs) arrays of
                (keys, arrays1) \<Rightarrow>
                  (case mergeInsertionSort_ref cmp keys (arrays1, s1) of
                     (Inl e, w2) \<Rightarrow> (Inl e, w2)
                   | (Inr larger, (arrays2, s2)) \<Rightarrow>
                       (case insertSmaller cmp (arrays2 ! array) pairs (arrays2 ! larger) s2 of
                          (Inl e, s3) \<Rightarrow> (Inl e, (arrays2, s3))
                        | (Inr result, s3) \<Rightarrow>
                            (case alloc result arrays2 of
                               (r, arrays3) \<Rightarrow> (Inr r, (arrays3, s3))))))))"
  by pat_completeness auto
termination
proof (relation "measure (\<lambda>(cmp, array, w). length (fst w ! array))", goal_cases)
  case 1
  show ?case by simp
next
  case prems: (2 cmp array arrays s x1 s1 pairs keys arrays1)
  from prems have mk: "mkPairs cmp (arrays ! array) 0 [] s = (Inr pairs, s1)" by simp
  from mkPairs_length[OF this] have "length pairs \<le> length (arrays ! array) div 2" by simp
  moreover from prems(1) have "0 < length (arrays ! array)" by linarith
  ultimately have "length pairs < length (arrays ! array)" by linarith
  moreover from prems have "arrays1 ! keys = map fst pairs" by (auto simp: alloc_def)
  ultimately show ?case by simp
qed

declare mergeInsertionSort_ref.simps [simp del]

text \<open>
  The result of a call, read through the store: the array behind the returned reference.
\<close>

definition deref :: "'a arrays \<Rightarrow> error + nat \<Rightarrow> error + 'a list" where
  "deref arrays res = (case res of Inl e \<Rightarrow> Inl e | Inr r \<Rightarrow> Inr (arrays ! r))"

text \<open>
  A call only ever adds arrays to the store; the reference it returns is one of the added
  ones; and what it computes is what \<open>mergeInsertionSort\<close> computes on the array behind the
  input reference. The second reading of the input, after the recursive call, sees the same
  array because the recursive call has left the store as it was up to its own additions.
\<close>

lemma mergeInsertionSort_ref_spec:
  assumes "array < length arrays"
    and "mergeInsertionSort_ref cmp array (arrays, s) = (res, (arrays', s'))"
  shows "(\<exists>new. arrays' = arrays @ new) \<and>
         (case res of Inl e \<Rightarrow> True | Inr r \<Rightarrow> length arrays \<le> r \<and> r < length arrays') \<and>
         mergeInsertionSort cmp (arrays ! array) s = (deref arrays' res, s')"
  using assms
proof (induction cmp array "(arrays, s)" arbitrary: arrays s res arrays' s'
    rule: mergeInsertionSort_ref.induct)
  case (1 cmp array arrays s)
  let ?a = "arrays ! array"
  note run = "1.prems"(2)
  note ref = mergeInsertionSort_ref.simps[of cmp array arrays s]
  note val = mergeInsertionSort.simps[of cmp ?a s]
  consider (short) "length ?a < 1 \<or> length ?a = 1"
    | (dup) "\<not> length ?a < 1" "length ?a \<noteq> 1" "length ?a \<noteq> card (set ?a)"
    | (two) "\<not> length ?a < 1" "length ?a \<noteq> 1" "\<not> length ?a \<noteq> card (set ?a)"
        "length ?a = 2"
    | (more) "\<not> length ?a < 1" "length ?a \<noteq> 1" "\<not> length ?a \<noteq> card (set ?a)"
        "length ?a \<noteq> 2"
    by blast
  then show ?case
  proof cases
    case short
    have v: "mergeInsertionSort cmp ?a s = (Inr ?a, s)"
      unfolding val using short by auto
    have "mergeInsertionSort_ref cmp array (arrays, s) =
        (Inr (length arrays), (arrays @ [?a], s))"
      unfolding ref alloc_def using short by auto
    with run have "res = Inr (length arrays)" "arrays' = arrays @ [?a]" "s' = s" by simp_all
    then show ?thesis using v by (simp add: deref_def)
  next
    case dup
    then have v: "mergeInsertionSort cmp ?a s = (Inl DuplicateItems, s)"
      by (simp add: val)
    from dup have "mergeInsertionSort_ref cmp array (arrays, s) =
        (Inl DuplicateItems, (arrays, s))"
      by (simp add: ref)
    with run have "res = Inl DuplicateItems" "arrays' = arrays" "s' = s" by simp_all
    then show ?thesis using v by (simp add: deref_def)
  next
    case two
    obtain c s1 where c: "cmp (?a ! 0, ?a ! 1) s = (c, s1)" by (cases "cmp (?a ! 0, ?a ! 1) s")
    show ?thesis
    proof (cases c)
      case None
      with two c have v: "mergeInsertionSort cmp ?a s = (Inl ComparatorFailure, s1)"
        by (simp add: val)
      from None two c have "mergeInsertionSort_ref cmp array (arrays, s) =
          (Inl ComparatorFailure, (arrays, s1))"
        by (simp add: ref)
      with run have "res = Inl ComparatorFailure" "arrays' = arrays" "s' = s1" by simp_all
      then show ?thesis using v by (simp add: deref_def)
    next
      case (Some b)
      let ?r = "if b then ?a else [?a ! 1, ?a ! 0]"
      from Some two c have v: "mergeInsertionSort cmp ?a s = (Inr ?r, s1)"
        by (simp add: val)
      from Some two c have "mergeInsertionSort_ref cmp array (arrays, s) =
          (Inr (length arrays), (arrays @ [?r], s1))"
        by (simp add: ref alloc_def)
      with run have "res = Inr (length arrays)" "arrays' = arrays @ [?r]" "s' = s1"
        by simp_all
      then show ?thesis using v by (simp add: deref_def)
    qed
  next
    case more
    obtain r1 s1 where mk: "mkPairs cmp ?a 0 [] s = (r1, s1)" by (cases "mkPairs cmp ?a 0 [] s")
    show ?thesis
    proof (cases r1)
      case (Inl e)
      with more mk have v: "mergeInsertionSort cmp ?a s = (Inl e, s1)"
        by (simp add: val)
      from Inl more mk have "mergeInsertionSort_ref cmp array (arrays, s) =
          (Inl e, (arrays, s1))"
        by (simp add: ref)
      with run have "res = Inl e" "arrays' = arrays" "s' = s1" by simp_all
      then show ?thesis using v by (simp add: deref_def)
    next
      case (Inr pairs)
      let ?keys = "length arrays"
      let ?arrays1 = "arrays @ [map fst pairs]"
      have al: "alloc (map fst pairs) arrays = (?keys, ?arrays1)" by (simp add: alloc_def)
      have k: "?arrays1 ! ?keys = map fst pairs" by simp
      obtain res2 arrays2 s2 where
        rec: "mergeInsertionSort_ref cmp ?keys (?arrays1, s1) = (res2, (arrays2, s2))"
        by (cases "mergeInsertionSort_ref cmp ?keys (?arrays1, s1)") auto
      have mk': "mkPairs cmp ?a 0 [] s = (Inr pairs, s1)" using mk Inr by simp
      have "?keys < length ?arrays1" by simp
      from "1.hyps"[OF more mk'[symmetric] refl al[symmetric] this rec]
      obtain new where grow: "arrays2 = ?arrays1 @ new"
        and fresh: "case res2 of Inl e \<Rightarrow> True | Inr r \<Rightarrow> length ?arrays1 \<le> r \<and> r < length arrays2"
        and sim: "mergeInsertionSort cmp (?arrays1 ! ?keys) s1 = (deref arrays2 res2, s2)"
        by blast
      have sim': "mergeInsertionSort cmp (map fst pairs) s1 = (deref arrays2 res2, s2)"
        using sim k by simp
      have same: "arrays2 ! array = ?a"
        using grow "1.prems"(1) by (simp add: nth_append)
      have ref': "mergeInsertionSort_ref cmp array (arrays, s) =
          (case res2 of Inl e \<Rightarrow> (Inl e, (arrays2, s2))
           | Inr larger \<Rightarrow>
               (case insertSmaller cmp ?a pairs (arrays2 ! larger) s2 of
                  (Inl e, s3) \<Rightarrow> (Inl e, (arrays2, s3))
                | (Inr result, s3) \<Rightarrow> (Inr (length arrays2), (arrays2 @ [result], s3))))"
        using more by (simp add: ref mk' al rec same alloc_def split: sum.splits prod.splits)
      have val': "mergeInsertionSort cmp ?a s =
          (case deref arrays2 res2 of Inl e \<Rightarrow> (Inl e, s2)
           | Inr larger \<Rightarrow> insertSmaller cmp ?a pairs larger s2)"
        using more by (simp add: val mk' sim')
      show ?thesis
      proof (cases res2)
        case (Inl e)
        with val' have v: "mergeInsertionSort cmp ?a s = (Inl e, s2)"
          by (simp add: deref_def)
        from Inl ref' run have "res = Inl e" "arrays' = arrays2" "s' = s2" by simp_all
        then show ?thesis using v grow by (simp add: deref_def)
      next
        case (Inr larger)
        with val' have v: "mergeInsertionSort cmp ?a s =
            insertSmaller cmp ?a pairs (arrays2 ! larger) s2"
          by (simp add: deref_def)
        obtain r3 s3 where ins: "insertSmaller cmp ?a pairs (arrays2 ! larger) s2 = (r3, s3)"
          by (cases "insertSmaller cmp ?a pairs (arrays2 ! larger) s2")
        show ?thesis
        proof (cases r3)
          case (Inl e)
          with Inr ins ref' run have "res = Inl e" "arrays' = arrays2" "s' = s3"
            by simp_all
          then show ?thesis using v ins Inl grow by (simp add: deref_def)
        next
          case inr: (Inr result)
          with Inr ins ref' run have e: "res = Inr (length arrays2)"
            "arrays' = arrays2 @ [result]" "s' = s3"
            by simp_all
          have g: "\<exists>new'. arrays' = arrays @ new'" using e(2) grow by simp
          have f: "length arrays \<le> length arrays2 \<and> length arrays2 < length arrays'"
            using e(2) grow by simp
          have d: "deref arrays' res = Inr result" using e(1,2) by (simp add: deref_def)
          have "mergeInsertionSort cmp ?a s = (deref arrays' res, s')"
            using v ins inr d e(3) by simp
          then show ?thesis using g f e(1) by simp
        qed
      qed
    qed
  qed
qed

text \<open>
  C8. The array that the caller passes to \<open>mergeInsertionSort\<close> holds the same items in
  the same order after the call as before it, whatever the comparator does and however the
  call ends: with a sorted result, with the error for duplicate items, or with the failure
  of the comparator. The same holds of every other array the caller had, and a result is a
  new array, not the input.
\<close>

theorem input_array_unchanged:
  assumes "array < length arrays"
    and "mergeInsertionSort_ref cmp array (arrays, s) = (res, (arrays', s'))"
  shows "arrays' ! array = arrays ! array \<and> take (length arrays) arrays' = arrays \<and>
         res \<noteq> Inr array"
proof -
  from mergeInsertionSort_ref_spec[OF assms]
  obtain new where grow: "arrays' = arrays @ new"
    and fresh: "case res of Inl e \<Rightarrow> True | Inr r \<Rightarrow> length arrays \<le> r \<and> r < length arrays'"
    by blast
  have "arrays' ! array = arrays ! array" using grow assms(1) by (simp add: nth_append)
  moreover have "take (length arrays) arrays' = arrays" using grow by simp
  moreover have "res \<noteq> Inr array" using fresh assms(1) by (cases res) auto
  ultimately show ?thesis by blast
qed

theorem input_array_unchanged_witness:
  "(1 :: nat) < length [[9, 9], [4, 5, 1, 3, 6 :: nat]] \<and>
   mergeInsertionSort_ref (orderComparator (<)) 1 ([[9, 9], [4, 5, 1, 3, 6 :: nat]], ()) =
     (Inr 4, ([[9, 9], [4, 5, 1, 3, 6], [5, 3], [3, 5], [1, 3, 4, 5, 6]], ())) \<and>
   [[9, 9], [4, 5, 1, 3, 6], [5, 3], [3, 5], [1, 3, 4, 5, 6 :: nat]] ! 1 = [4, 5, 1, 3, 6]"
proof -
  have run: "mergeInsertionSort_ref (orderComparator (<)) 1 ([[9, 9], [4, 5, 1, 3, 6 :: nat]], ()) =
     (Inr 4, ([[9, 9], [4, 5, 1, 3, 6], [5, 3], [3, 5], [1, 3, 4, 5, 6]], ()))"
    by code_simp
  have len: "(1 :: nat) < length [[9, 9], [4, 5, 1, 3, 6 :: nat]]" by simp
  from input_array_unchanged[OF len run] len run show ?thesis by simp
qed

text \<open>
  The two ways a call fails, on the same store: a duplicate item is noticed before any
  array is made; a comparator that fails at its fourth call leaves behind the two arrays
  of the recursive call, and the caller's arrays as they were.
\<close>

lemma duplicate_items_run:
  "mergeInsertionSort_ref (orderComparator (<)) 0 ([[9, 9, 1], [4, 5, 1, 3, 6 :: nat]], ()) =
     (Inl DuplicateItems, ([[9, 9, 1], [4, 5, 1, 3, 6]], ()))"
  by code_simp

lemma comparator_failure_run:
  "mergeInsertionSort_ref
     (\<lambda>ab s. (if s = (0 :: nat) then None else Some (fst ab < snd ab), s - 1))
     1 ([[9, 9], [4, 5, 1, 3, 6 :: nat]], 3) =
   (Inl ComparatorFailure, ([[9, 9], [4, 5, 1, 3, 6], [5, 3], [3, 5]], 0))"
  by code_simp

end
